theory Spec2Isabelle
  imports Complex_Main
begin

section \<open>Errors, element types and tensors\<close>

text \<open>
  The layers of \<^verbatim>\<open>masksembles/torch.py\<close> are built from a handful of tensor
  operations of torch and numpy.  Each operation is modelled with the shape checks it
  performs; a failed check is a value \<open>Inl e\<close> of the result type, where \<open>e\<close> is the
  Python exception raised.
\<close>

datatype error =
  ZeroDivisionError | ValueError | IndexError | RuntimeError | TypeError | OverflowError

datatype dtype =
  Bool | UInt8 | Int8 | Int16 | Int32 | Int64 | Float16 | BFloat16 | Float32 | Float64

text \<open>
  A tensor is its element type, its shape and its elements, read by a multi-index.
  Only the elements at indices inside the shape are meaningful.  Element values are
  modelled as mathematical numbers: the element type is tracked as a tag, the rounding
  of a conversion between element types is outside the model.
\<close>

record tensor =
  dtype :: dtype
  shape :: "nat list"
  data :: "nat list \<Rightarrow> real"

definition and_then :: "error + 'a \<Rightarrow> ('a \<Rightarrow> error + 'b) \<Rightarrow> error + 'b" where
  "and_then r f = (case r of Inl e \<Rightarrow> Inl e | Inr x \<Rightarrow> f x)"

subsection \<open>Type promotion\<close>

fun is_floating :: "dtype \<Rightarrow> bool" where
  "is_floating Float16 = True"
| "is_floating BFloat16 = True"
| "is_floating Float32 = True"
| "is_floating Float64 = True"
| "is_floating _ = False"

fun int_rank :: "dtype \<Rightarrow> nat" where
  "int_rank Int8 = 1"
| "int_rank Int16 = 2"
| "int_rank Int32 = 3"
| "int_rank Int64 = 4"
| "int_rank _ = 0"

definition promote_types :: "dtype \<Rightarrow> dtype \<Rightarrow> dtype" where
  "promote_types a b =
     (if a = b then a
      else if a = Bool then b
      else if b = Bool then a
      else if is_floating a \<and> is_floating b then
        (if a = Float64 \<or> b = Float64 then Float64 else Float32)
      else if is_floating a then a
      else if is_floating b then b
      else if a = UInt8 then (if b = Int8 then Int16 else b)
      else if b = UInt8 then (if a = Int8 then Int16 else a)
      else if int_rank a < int_rank b then b else a)"

subsection \<open>Allocation: \<^verbatim>\<open>np.zeros\<close>, \<^verbatim>\<open>np.ones\<close>\<close>

text \<open>numpy refuses a negative dimension with a \<^verbatim>\<open>ValueError\<close>; the result is float64.\<close>

definition full :: "int list \<Rightarrow> real \<Rightarrow> error + tensor" where
  "full dims v =
     (if list_all (\<lambda>d. 0 \<le> d) dims
      then Inr \<lparr>dtype = Float64, shape = map nat dims, data = (\<lambda>ix. v)\<rparr>
      else Inl ValueError)"

definition zeros :: "int list \<Rightarrow> error + tensor" where
  "zeros dims = full dims 0"

definition ones :: "int list \<Rightarrow> error + tensor" where
  "ones dims = full dims 1"

subsection \<open>Casts: \<^verbatim>\<open>.double()\<close>, \<^verbatim>\<open>.float()\<close>\<close>

definition double :: "tensor \<Rightarrow> tensor" where
  "double t = t\<lparr>dtype := Float64\<rparr>"

definition float :: "tensor \<Rightarrow> tensor" where
  "float t = t\<lparr>dtype := Float32\<rparr>"

subsection \<open>\<^verbatim>\<open>unsqueeze\<close> and \<^verbatim>\<open>squeeze\<close>\<close>

text \<open>A dimension argument \<open>d\<close> of a tensor operation may be negative; it is valid in
  \<open>[-r, r)\<close> for the number \<open>r\<close> of positions it may name.\<close>

definition wrap_dim :: "int \<Rightarrow> nat \<Rightarrow> error + nat" where
  "wrap_dim d r =
     (if - int r \<le> d \<and> d < int r
      then Inr (nat (if d < 0 then d + int r else d))
      else Inl IndexError)"

definition unsqueeze :: "tensor \<Rightarrow> int \<Rightarrow> error + tensor" where
  "unsqueeze t d =
     and_then (wrap_dim d (length (shape t) + 1)) (\<lambda>k.
       Inr (t\<lparr>shape := take k (shape t) @ [1] @ drop k (shape t),
              data := (\<lambda>ix. data t (take k ix @ drop (Suc k) ix))\<rparr>))"

definition squeeze :: "tensor \<Rightarrow> nat \<Rightarrow> error + tensor" where
  "squeeze t d =
     (if d < length (shape t) then
        (if shape t ! d = 1
         then Inr (t\<lparr>shape := take d (shape t) @ drop (Suc d) (shape t),
                     data := (\<lambda>ix. data t (take d ix @ [0] @ drop d ix))\<rparr>)
         else Inr t)
      else if shape t = [] \<and> d = 0 then Inr t
      else Inl IndexError)"

subsection \<open>\<^verbatim>\<open>torch.split\<close> with an integer chunk size\<close>

definition narrow :: "tensor \<Rightarrow> nat \<Rightarrow> nat \<Rightarrow> nat \<Rightarrow> tensor" where
  "narrow t d start len =
     t\<lparr>shape := (shape t)[d := len],
       data := (\<lambda>ix. data t (ix[d := ix ! d + start]))\<rparr>"

text \<open>
  \<^verbatim>\<open>torch.split(t, split_size, dim)\<close>: chunks of \<open>split_size\<close> along \<open>dim\<close>, the last
  one shorter when the size is not a multiple.  A negative chunk size is refused, a zero
  chunk size is accepted only for a dimension of size zero, and there is always at
  least one chunk.
\<close>

definition split :: "tensor \<Rightarrow> int \<Rightarrow> nat \<Rightarrow> error + tensor list" where
  "split t split_size d =
     (if length (shape t) \<le> d then Inl IndexError
      else if split_size < 0 then Inl RuntimeError
      else
        (let dim_size = shape t ! d; s = nat split_size in
         if s = 0 then
           (if dim_size = 0 then Inr [narrow t d 0 0] else Inl RuntimeError)
         else
           Inr (map (\<lambda>i. narrow t d (i * s) (min s (dim_size - i * s)))
                  [0 ..< max ((dim_size + s - 1) div s) 1])))"

subsection \<open>\<^verbatim>\<open>torch.cat\<close>\<close>

fun cat_data :: "tensor list \<Rightarrow> nat \<Rightarrow> nat list \<Rightarrow> real" where
  "cat_data [] d ix = 0"
| "cat_data (t # ts) d ix =
     (if ix ! d < shape t ! d then data t ix
      else cat_data ts d (ix[d := ix ! d - shape t ! d]))"

text \<open>
  \<^verbatim>\<open>torch.cat(ts, dim)\<close>: the list is not empty and all tensors have the same shape
  except along \<open>dim\<close>.  (torch skips tensors of shape \<open>[0]\<close>; the layers only
  concatenate tensors of rank two or more.)
\<close>

definition cat :: "tensor list \<Rightarrow> nat \<Rightarrow> error + tensor" where
  "cat ts d =
     (case ts of
        [] \<Rightarrow> Inl RuntimeError
      | t # rest \<Rightarrow>
          if length (shape t) \<le> d then Inl IndexError
          else if list_all (\<lambda>u. length (shape u) = length (shape t)
                              \<and> (shape u)[d := 0] = (shape t)[d := 0]) rest
          then Inr \<lparr>dtype = foldl promote_types (dtype t) (map dtype rest),
                    shape = (shape t)[d := sum_list (map (\<lambda>u. shape u ! d) ts)],
                    data = cat_data ts d\<rparr>
          else Inl RuntimeError)"

subsection \<open>\<^verbatim>\<open>permute\<close>\<close>

fun index_of :: "nat list \<Rightarrow> nat \<Rightarrow> nat" where
  "index_of [] q = 0"
| "index_of (p # ps) q = (if p = q then 0 else Suc (index_of ps q))"

text \<open>Dimension \<open>i\<close> of the result is dimension \<open>dims ! i\<close> of the argument.\<close>

definition permute :: "tensor \<Rightarrow> nat list \<Rightarrow> error + tensor" where
  "permute t dims =
     (if length dims \<noteq> length (shape t) then Inl RuntimeError
      else if \<not> list_all (\<lambda>p. p < length (shape t)) dims then Inl IndexError
      else if \<not> distinct dims then Inl RuntimeError
      else Inr (t\<lparr>shape := map (\<lambda>p. shape t ! p) dims,
                  data := (\<lambda>ix. data t (map (\<lambda>q. ix ! index_of dims q) [0 ..< length dims]))\<rparr>))"

subsection \<open>Broadcasting multiplication\<close>

text \<open>Shapes are aligned at their last dimension; two sizes are compatible when they
  are equal or one of them is one.\<close>

fun broadcast_rev :: "nat list \<Rightarrow> nat list \<Rightarrow> nat list option" where
  "broadcast_rev [] bs = Some bs"
| "broadcast_rev (a # as) [] = Some (a # as)"
| "broadcast_rev (a # as) (b # bs) =
     (if a = b \<or> b = 1 then map_option ((#) a) (broadcast_rev as bs)
      else if a = 1 then map_option ((#) b) (broadcast_rev as bs)
      else None)"

definition broadcast_shapes :: "nat list \<Rightarrow> nat list \<Rightarrow> nat list option" where
  "broadcast_shapes a b = map_option rev (broadcast_rev (rev a) (rev b))"

definition expand_index :: "nat list \<Rightarrow> nat list \<Rightarrow> nat list" where
  "expand_index sh ix =
     map2 (\<lambda>s i. if s = 1 then 0 else i) sh (drop (length ix - length sh) ix)"

definition mul :: "tensor \<Rightarrow> tensor \<Rightarrow> error + tensor" where
  "mul a b =
     (case broadcast_shapes (shape a) (shape b) of
        None \<Rightarrow> Inl RuntimeError
      | Some sh \<Rightarrow>
          Inr \<lparr>dtype = promote_types (dtype a) (dtype b),
               shape = sh,
               data = (\<lambda>ix. data a (expand_index (shape a) ix)
                            * data b (expand_index (shape b) ix))\<rparr>)"

section \<open>The layers\<close>

text \<open>
  The four classes store the constructor's arguments and the mask matrix; the
  dynamic-size classes store \<open>expected_size\<close> as well.
\<close>

record masksembles =
  channels :: int
  n :: int
  scale :: real
  masks :: tensor

record masksembles_dynamic = masksembles +
  expected_size :: int

subsection \<open>Nested masks\<close>

text \<open>
  One iteration of the loop body \<^verbatim>\<open>masks[i] = np.logical_or(masks[i], masks[i - 1])\<close>:
  row \<open>i\<close> is overwritten, in place, by the truth values (one or zero) of the
  disjunction of row \<open>i\<close> and row \<open>i - 1\<close>.  Reading row \<open>i\<close> of a tensor with
  fewer rows raises \<^verbatim>\<open>IndexError\<close>; index \<open>-1\<close> is the last row.
\<close>

definition logical_or_rows :: "tensor \<Rightarrow> nat \<Rightarrow> error + tensor" where
  "logical_or_rows ms i =
     (case shape ms of
        [] \<Rightarrow> Inl IndexError
      | rows # _ \<Rightarrow>
          if i < rows then
            Inr (ms\<lparr>data := (\<lambda>ix. case ix of
                      [] \<Rightarrow> data ms ix
                    | r # rest \<Rightarrow>
                        if r = i then
                          (if data ms (i # rest) = 0
                              \<and> data ms ((if i = 0 then rows - 1 else i - 1) # rest) = 0
                           then 0 else 1)
                        else data ms ix)\<rparr>)
          else Inl IndexError)"

text \<open>The loop \<^verbatim>\<open>for i in range(1, n)\<close>, over the list of its indices.\<close>

fun nested_loop :: "nat list \<Rightarrow> tensor \<Rightarrow> error + tensor" where
  "nested_loop [] ms = Inr ms"
| "nested_loop (i # is) ms =
     (case logical_or_rows ms i of
        Inl e \<Rightarrow> Inl e
      | Inr ms' \<Rightarrow> nested_loop is ms')"

definition range1 :: "int \<Rightarrow> nat list" where
  "range1 num = [1 ..< nat num]"

subsection \<open>Constructors\<close>

text \<open>
  The mask generators \<^verbatim>\<open>common.generation_wrapper\<close> and \<^verbatim>\<open>common.generate_masks\<close>
  are not part of the file; a constructor takes the generator it calls as its first
  argument \<open>gen\<close>.  A generator may raise, and nothing is assumed of the shape of
  what it returns.
\<close>

type_synonym generator = "int \<Rightarrow> int \<Rightarrow> real \<Rightarrow> error + tensor"

definition Masksembles2D_init ::
    "generator \<Rightarrow> int \<Rightarrow> int \<Rightarrow> real \<Rightarrow> bool \<Rightarrow> bool \<Rightarrow> error + masksembles" where
  "Masksembles2D_init gen chs num scl generate_masks nested_masks =
     (if generate_masks then
        and_then (gen chs num scl) (\<lambda>ms.
        and_then (if nested_masks then nested_loop (range1 num) ms else Inr ms) (\<lambda>ms.
        Inr \<lparr>channels = chs, n = num, scale = scl, masks = double ms\<rparr>))
      else
        and_then (zeros [num, chs]) (\<lambda>ms.
        Inr \<lparr>channels = chs, n = num, scale = scl, masks = double ms\<rparr>))"

definition Masksembles1D_init ::
    "generator \<Rightarrow> int \<Rightarrow> int \<Rightarrow> real \<Rightarrow> bool \<Rightarrow> bool \<Rightarrow> error + masksembles" where
  "Masksembles1D_init gen chs num scl generate_masks nested_masks =
     (if generate_masks then
        and_then (if scl = 1 then ones [num, chs] else gen chs num scl) (\<lambda>ms.
        and_then (if nested_masks then nested_loop (range1 num) ms else Inr ms) (\<lambda>ms.
        Inr \<lparr>channels = chs, n = num, scale = scl, masks = double ms\<rparr>))
      else
        and_then (zeros [num, chs]) (\<lambda>ms.
        Inr \<lparr>channels = chs, n = num, scale = scl, masks = double ms\<rparr>))"

subsection \<open>Python floats and the expected size\<close>

text \<open>
  A Python float is an IEEE 754 binary64 number: a finite value, an infinity or a NaN.
  A finite value is the real number it denotes (the sign of a zero is not kept: no
  operation used here tells the two zeros apart in its result).
\<close>

datatype float64 = Finite real | PosInf | NegInf | NaN

text \<open>
  Rounding to nearest, ties to even, with 53 significant bits.  The binade of \<open>x\<close> is
  the exponent \<open>e\<close> with \<open>2 ^ e \<le> |x| < 2 ^ (e + 1)\<close>; below \<open>2 ^ (-1022)\<close> the spacing
  of the subnormal numbers applies.  A result of magnitude \<open>2 ^ 1024\<close> or more is an
  infinity.
\<close>

definition binade :: "real \<Rightarrow> int" where
  "binade x = \<lfloor>log 2 \<bar>x\<bar>\<rfloor>"

definition ulp :: "real \<Rightarrow> real" where
  "ulp x = 2 powi (max (binade x) (- 1022) - 52)"

definition round_half_even :: "real \<Rightarrow> int" where
  "round_half_even q =
     (if q - of_int \<lfloor>q\<rfloor> < 1 / 2 then \<lfloor>q\<rfloor>
      else if 1 / 2 < q - of_int \<lfloor>q\<rfloor> then \<lfloor>q\<rfloor> + 1
      else if even \<lfloor>q\<rfloor> then \<lfloor>q\<rfloor> else \<lfloor>q\<rfloor> + 1)"

definition rnd :: "real \<Rightarrow> real" where
  "rnd x = (if x = 0 then 0 else of_int (round_half_even (x / ulp x)) * ulp x)"

definition to_float64 :: "real \<Rightarrow> float64" where
  "to_float64 x =
     (if 2 ^ 1024 \<le> rnd x then PosInf
      else if rnd x \<le> - (2 ^ 1024) then NegInf
      else Finite (rnd x))"

text \<open>\<^verbatim>\<open>float(i)\<close> of an int, as the arithmetic operators do for an int operand: the nearest
  float, \<^verbatim>\<open>OverflowError\<close> when that is not finite.\<close>

definition float_of_int :: "int \<Rightarrow> error + float64" where
  "float_of_int i =
     (case to_float64 (of_int i) of
        Finite y \<Rightarrow> Inr (Finite y)
      | _ \<Rightarrow> Inl OverflowError)"

text \<open>Multiplication and subtraction of floats never raise.\<close>

fun float_mul :: "float64 \<Rightarrow> float64 \<Rightarrow> float64" where
  "float_mul (Finite a) (Finite b) = to_float64 (a * b)"
| "float_mul NaN _ = NaN"
| "float_mul _ NaN = NaN"
| "float_mul (Finite a) PosInf = (if a = 0 then NaN else if 0 < a then PosInf else NegInf)"
| "float_mul (Finite a) NegInf = (if a = 0 then NaN else if 0 < a then NegInf else PosInf)"
| "float_mul PosInf (Finite b) = (if b = 0 then NaN else if 0 < b then PosInf else NegInf)"
| "float_mul NegInf (Finite b) = (if b = 0 then NaN else if 0 < b then NegInf else PosInf)"
| "float_mul PosInf PosInf = PosInf"
| "float_mul PosInf NegInf = NegInf"
| "float_mul NegInf PosInf = NegInf"
| "float_mul NegInf NegInf = PosInf"

fun float_sub :: "float64 \<Rightarrow> float64 \<Rightarrow> float64" where
  "float_sub (Finite a) (Finite b) = to_float64 (a - b)"
| "float_sub NaN _ = NaN"
| "float_sub _ NaN = NaN"
| "float_sub (Finite a) PosInf = NegInf"
| "float_sub (Finite a) NegInf = PosInf"
| "float_sub PosInf (Finite b) = PosInf"
| "float_sub NegInf (Finite b) = NegInf"
| "float_sub PosInf PosInf = NaN"
| "float_sub PosInf NegInf = PosInf"
| "float_sub NegInf PosInf = NegInf"
| "float_sub NegInf NegInf = NaN"

text \<open>\<^verbatim>\<open>a / b\<close>: a zero divisor raises \<^verbatim>\<open>ZeroDivisionError\<close>, whatever the dividend.\<close>

fun float_truediv :: "float64 \<Rightarrow> float64 \<Rightarrow> error + float64" where
  "float_truediv a (Finite b) =
     (if b = 0 then Inl ZeroDivisionError
      else case a of
        Finite x \<Rightarrow> Inr (to_float64 (x / b))
      | PosInf \<Rightarrow> Inr (if 0 < b then PosInf else NegInf)
      | NegInf \<Rightarrow> Inr (if 0 < b then NegInf else PosInf)
      | NaN \<Rightarrow> Inr NaN)"
| "float_truediv a NaN = Inr NaN"
| "float_truediv (Finite x) _ = Inr (Finite 0)"
| "float_truediv NaN _ = Inr NaN"
| "float_truediv _ _ = Inr NaN"

text \<open>
  \<^verbatim>\<open>v ** w\<close> for a float \<open>v\<close> and an int \<open>w\<close>, as \<^verbatim>\<open>float_pow\<close> of CPython decides it: the
  exponent is converted to a float first; a zero exponent gives one; a zero base gives
  zero, or raises for a negative exponent; a negative base is raised in magnitude and
  the sign restored for an odd exponent; a base of magnitude one gives one.  Everything
  else is left to the platform's \<^verbatim>\<open>pow\<close>, taken here to round correctly, and an overflow
  there raises \<^verbatim>\<open>OverflowError\<close>.
\<close>

definition platform_pow :: "real \<Rightarrow> int \<Rightarrow> bool \<Rightarrow> error + float64" where
  "platform_pow a e negate_result =
     (case to_float64 (a powi e) of
        Finite y \<Rightarrow> Inr (Finite (if negate_result then - y else y))
      | _ \<Rightarrow> Inl OverflowError)"

definition float_pow :: "float64 \<Rightarrow> int \<Rightarrow> error + float64" where
  "float_pow v w =
     and_then (float_of_int w) (\<lambda>fw.
       case fw of
         Finite iw \<Rightarrow>
           if iw = 0 then Inr (Finite 1)
           else (case v of
               NaN \<Rightarrow> Inr NaN
             | PosInf \<Rightarrow> Inr (if 0 < iw then PosInf else Finite 0)
             | NegInf \<Rightarrow>
                 Inr (if 0 < iw then (if odd \<lfloor>iw\<rfloor> then NegInf else PosInf) else Finite 0)
             | Finite iv \<Rightarrow>
                 if iv = 0 then (if iw < 0 then Inl ZeroDivisionError else Inr (Finite 0))
                 else if \<bar>iv\<bar> = 1 then Inr (Finite (if iv < 0 \<and> odd \<lfloor>iw\<rfloor> then - 1 else 1))
                 else platform_pow \<bar>iv\<bar> \<lfloor>iw\<rfloor> (iv < 0 \<and> odd \<lfloor>iw\<rfloor>))
       | _ \<Rightarrow> Inl OverflowError)"

text \<open>\<^verbatim>\<open>int(x)\<close> of a float rounds towards zero; an infinity raises \<^verbatim>\<open>OverflowError\<close>, a
  NaN \<^verbatim>\<open>ValueError\<close>.\<close>

definition trunc :: "real \<Rightarrow> int" where
  "trunc x = (if 0 \<le> x then \<lfloor>x\<rfloor> else \<lceil>x\<rceil>)"

fun int_of_float :: "float64 \<Rightarrow> error + int" where
  "int_of_float (Finite x) = Inr (trunc x)"
| "int_of_float NaN = Inl ValueError"
| "int_of_float _ = Inl OverflowError"

text \<open>
  \<^verbatim>\<open>int(channels * scale * (1 - (1 - 1 / scale) ** n))\<close> of the dynamic-size classes, for
  ints \<open>channels\<close> and \<open>n\<close> and a finite float \<open>scale\<close>, in Python's order of evaluation:
  the product \<^verbatim>\<open>channels * scale\<close> first, then the bracket.
\<close>

definition compute_expected_size :: "int \<Rightarrow> int \<Rightarrow> real \<Rightarrow> error + int" where
  "compute_expected_size chs num scl =
     and_then (float_of_int chs) (\<lambda>c.
     and_then (float_truediv (Finite 1) (Finite scl)) (\<lambda>q.
     and_then (float_pow (float_sub (Finite 1) q) num) (\<lambda>p.
     int_of_float (float_mul (float_mul c (Finite scl)) (float_sub (Finite 1) p)))))"

definition Masksembles1DDynamicSize_init ::
    "generator \<Rightarrow> int \<Rightarrow> int \<Rightarrow> real \<Rightarrow> bool \<Rightarrow> error + masksembles_dynamic" where
  "Masksembles1DDynamicSize_init gen chs num scl generate_masks =
     and_then (compute_expected_size chs num scl) (\<lambda>size.
       if generate_masks then
         and_then (gen chs num scl) (\<lambda>ms.
         Inr \<lparr>channels = chs, n = num, scale = scl, masks = double ms,
              expected_size = size\<rparr>)
       else
         and_then (zeros [num, size]) (\<lambda>ms.
         Inr \<lparr>channels = chs, n = num, scale = scl, masks = double ms,
              expected_size = size\<rparr>))"

definition Masksembles2DDynamicSize_init ::
    "generator \<Rightarrow> int \<Rightarrow> int \<Rightarrow> real \<Rightarrow> bool \<Rightarrow> error + masksembles_dynamic" where
  "Masksembles2DDynamicSize_init gen chs num scl generate_masks =
     and_then (compute_expected_size chs num scl) (\<lambda>size.
       if generate_masks then
         and_then (gen chs num scl) (\<lambda>ms.
         Inr \<lparr>channels = chs, n = num, scale = scl, masks = double ms,
              expected_size = size\<rparr>)
       else
         and_then (zeros [num, size]) (\<lambda>ms.
         Inr \<lparr>channels = chs, n = num, scale = scl, masks = double ms,
              expected_size = size\<rparr>))"

subsection \<open>\<^verbatim>\<open>forward\<close>\<close>

text \<open>
  \<^verbatim>\<open>Masksembles1D.forward\<close> and \<^verbatim>\<open>Masksembles1DDynamicSize.forward\<close> are the same
  code.  \<^verbatim>\<open>batch // self.n\<close> raises \<^verbatim>\<open>ZeroDivisionError\<close> for \<open>n = 0\<close> and is floor
  division otherwise.
\<close>

definition floordiv :: "int \<Rightarrow> int \<Rightarrow> error + int" where
  "floordiv a b = (if b = 0 then Inl ZeroDivisionError else Inr (a div b))"

definition forward1D :: "'a masksembles_scheme \<Rightarrow> tensor \<Rightarrow> error + tensor" where
  "forward1D self inputs =
     (case shape inputs of
        [] \<Rightarrow> Inl IndexError
      | batch # _ \<Rightarrow>
          and_then (unsqueeze inputs 1) (\<lambda>u.
          and_then (floordiv (int batch) (n self)) (\<lambda>g.
          and_then (split u g 0) (\<lambda>xs.
          and_then (cat xs 1) (\<lambda>x.
          and_then (permute x [1, 0, 2]) (\<lambda>x.
          and_then (unsqueeze (masks self) 1) (\<lambda>m.
          and_then (mul x m) (\<lambda>x.
          and_then (split x 1 0) (\<lambda>xs.
          and_then (cat xs 1) (\<lambda>x.
          and_then (squeeze x 0) (\<lambda>x.
          Inr (float x))))))))))))"

text \<open>\<^verbatim>\<open>Masksembles2D.forward\<close> and \<^verbatim>\<open>Masksembles2DDynamicSize.forward\<close>.\<close>

definition forward2D :: "'a masksembles_scheme \<Rightarrow> tensor \<Rightarrow> error + tensor" where
  "forward2D self inputs =
     (case shape inputs of
        [] \<Rightarrow> Inl IndexError
      | batch # _ \<Rightarrow>
          and_then (unsqueeze inputs 1) (\<lambda>u.
          and_then (floordiv (int batch) (n self)) (\<lambda>g.
          and_then (split u g 0) (\<lambda>xs.
          and_then (cat xs 1) (\<lambda>x.
          and_then (permute x [1, 0, 2, 3, 4]) (\<lambda>x.
          and_then (unsqueeze (masks self) 1) (\<lambda>m.
          and_then (unsqueeze m (- 1)) (\<lambda>m.
          and_then (unsqueeze m (- 1)) (\<lambda>m.
          and_then (mul x m) (\<lambda>x.
          and_then (split x 1 0) (\<lambda>xs.
          and_then (cat xs 1) (\<lambda>x.
          and_then (squeeze x 0) (\<lambda>x.
          Inr (float x))))))))))))))"

subsection \<open>Matrices written by their rows\<close>

definition of_rows :: "dtype \<Rightarrow> real list list \<Rightarrow> tensor" where
  "of_rows dt rows =
     \<lparr>dtype = dt, shape = [length rows, length (hd rows)],
      data = (\<lambda>ix. rows ! (ix ! 0) ! (ix ! 1))\<rparr>"

definition to_rows :: "tensor \<Rightarrow> real list list" where
  "to_rows t = map (\<lambda>j. map (\<lambda>c. data t [j, c]) [0 ..< shape t ! 1]) [0 ..< shape t ! 0]"

definition to_plane :: "tensor \<Rightarrow> nat \<Rightarrow> nat \<Rightarrow> real list list" where
  "to_plane t j c =
     map (\<lambda>h. map (\<lambda>w. data t [j, c, h, w]) [0 ..< shape t ! 3]) [0 ..< shape t ! 2]"

subsection \<open>The expected size as the specification writes it\<close>

text \<open>
  The specification's closed form for the width of a dynamic-size mask matrix,
  \<open>floor(channels * scale * (1 - (1 - 1/scale) ** n))\<close>, for comparison with
  \<open>compute_expected_size\<close>.
\<close>

definition spec_expected_size :: "int \<Rightarrow> int \<Rightarrow> real \<Rightarrow> int" where
  "spec_expected_size chs num scl = \<lfloor>of_int chs * scl * (1 - (1 - 1 / scl) ^ nat num)\<rfloor>"

section \<open>Properties of the tensor operations\<close>

lemma promote_types_same: "promote_types a a = a"
  by (simp add: promote_types_def)

lemma foldl_promote_same:
  "list_all (\<lambda>x. x = dt) ds \<Longrightarrow> foldl promote_types dt ds = dt"
  by (induction ds) (simp_all add: promote_types_same)

lemma split_even:
  assumes "shape t = N # rest" "0 < g" "N = k * g" "0 < k"
  shows "split t (int g) 0 = Inr (map (\<lambda>i. narrow t 0 (i * g) g) [0 ..< k])"
proof -
  have a: "(k * g + g - 1) div g = k"
  proof (rule div_nat_eqI)
    show "g * k \<le> k * g + g - 1" using assms(2) by (simp add: mult.commute)
    show "k * g + g - 1 < g * Suc k" using assms(2) by (simp add: mult.commute)
  qed
  have b: "min g (k * g - i * g) = g" if "i < k" for i
  proof -
    have "Suc i \<le> k" using that by simp
    then have "Suc i * g \<le> k * g" by (rule mult_le_mono1)
    then show ?thesis by simp
  qed
  have m: "max ((k * g + g - 1) div g) 1 = k"
    using assms(4) by (simp only: a)
  have "split t (int g) 0
      = Inr (map (\<lambda>i. narrow t 0 (i * g) (min g (k * g - i * g)))
               [0 ..< max ((k * g + g - 1) div g) 1])"
    using assms(1,2,3) by (simp add: split_def Let_def del: upt_Suc)
  also have "\<dots> = Inr (map (\<lambda>i. narrow t 0 (i * g) (min g (k * g - i * g))) [0 ..< k])"
    by (simp only: m)
  also have "\<dots> = Inr (map (\<lambda>i. narrow t 0 (i * g) g) [0 ..< k])"
    by (simp add: b)
  finally show ?thesis .
qed

lemma split_ones:
  assumes "shape t = k # rest" "0 < k"
  shows "split t 1 0 = Inr (map (\<lambda>i. narrow t 0 i 1) [0 ..< k])"
  using split_even [of t k rest 1 k] assms by simp

lemma split_empty:
  assumes "shape t = 0 # rest"
  shows "split t 0 0 = Inr [narrow t 0 0 0]"
  using assms by (simp add: split_def)

lemma cat_same_shapes:
  assumes "ts \<noteq> []" "list_all (\<lambda>t. shape t = sh \<and> dtype t = dt) ts" "d < length sh"
  shows "cat ts d = Inr \<lparr>dtype = dt, shape = sh[d := length ts * (sh ! d)], data = cat_data ts d\<rparr>"
proof -
  obtain t rest where ts: "ts = t # rest" using assms(1) by (cases ts) auto
  have h: "shape t = sh" "dtype t = dt" "list_all (\<lambda>t. shape t = sh \<and> dtype t = dt) rest"
    using assms(2) ts by simp_all
  have s1: "list_all (\<lambda>u. length (shape u) = length sh \<and> (shape u)[d := 0] = sh[d := 0]) rest"
    using h(3) by (simp add: list_all_iff)
  have s2: "foldl promote_types dt (map dtype rest) = dt"
    by (rule foldl_promote_same) (use h(3) in \<open>simp add: list_all_iff\<close>)
  have s3: "sum_list (map (\<lambda>u. shape u ! d) us) = length us * (sh ! d)"
    if "list_all (\<lambda>t. shape t = sh \<and> dtype t = dt) us" for us
    using that by (induction us) simp_all
  show ?thesis
    using assms(3) h s1 s2 s3 [OF assms(2)] by (simp add: cat_def ts)
qed

lemma cat_data_same_width:
  assumes "list_all (\<lambda>t. shape t ! d = w) ts" "d < length ix" "ix ! d < length ts * w"
  shows "cat_data ts d ix = data (ts ! (ix ! d div w)) (ix[d := ix ! d mod w])"
  using assms
proof (induction ts arbitrary: ix)
  case Nil
  then show ?case by simp
next
  case (Cons t ts)
  have w: "shape t ! d = w" and rest: "list_all (\<lambda>t. shape t ! d = w) ts"
    using Cons.prems(1) by simp_all
  show ?case
  proof (cases "ix ! d < w")
    case True
    then show ?thesis using w by simp
  next
    case False
    let ?ix = "ix[d := ix ! d - w]"
    have len: "d < length ?ix" using Cons.prems(2) by simp
    have at: "?ix ! d = ix ! d - w" using Cons.prems(2) by simp
    have lt: "?ix ! d < length ts * w" using Cons.prems(3) False at by simp
    have pos: "0 < w" using Cons.prems(3) False by (cases w) auto
    have dv: "ix ! d div w = Suc ((ix ! d - w) div w)"
      using False pos by (simp add: le_div_geq)
    have md: "ix ! d mod w = (ix ! d - w) mod w"
      using False by (simp add: le_mod_geq)
    have "cat_data (t # ts) d ix = cat_data ts d ?ix" using False w by simp
    also have "\<dots> = data (ts ! (?ix ! d div w)) (?ix[d := ?ix ! d mod w])"
      by (rule Cons.IH [OF rest len lt])
    finally show ?thesis by (simp add: at dv md)
  qed
qed

lemma upt_3: "[0 ..< 3] = [0, Suc 0, Suc (Suc 0)]"
  by (simp add: upt_rec)

lemma upt_5: "[0 ..< 5] = [0, Suc 0, Suc (Suc 0), Suc (Suc (Suc 0)), Suc (Suc (Suc (Suc 0)))]"
  by (simp add: upt_rec)

lemma list_all_map_upt:
  "list_all P (map f [0 ..< k]) = (\<forall>i<k. P (f i))"
  by (auto simp: list_all_iff)

lemma unsqueeze_1:
  assumes "shape t = b # rest"
  shows "unsqueeze t 1
       = Inr (t\<lparr>shape := b # 1 # rest, data := (\<lambda>ix. data t (take 1 ix @ drop 2 ix))\<rparr>)"
  using assms by (simp add: unsqueeze_def wrap_dim_def and_then_def numeral_2_eq_2)

lemma unsqueeze_last:
  "unsqueeze t (- 1)
     = Inr (t\<lparr>shape := shape t @ [1],
              data := (\<lambda>ix. data t (take (length (shape t)) ix
                                     @ drop (Suc (length (shape t))) ix))\<rparr>)"
  by (simp add: unsqueeze_def wrap_dim_def and_then_def)

lemma group_batch:
  assumes sh: "shape t = (k * g) # rest" and k: "0 < k" and g: "0 < g"
  obtains u xs x where
    "unsqueeze t 1 = Inr u" "split u (int g) 0 = Inr xs" "cat xs 1 = Inr x"
    "shape x = g # k # rest" "dtype x = dtype t"
    "\<And>r i tl. r < g \<Longrightarrow> i < k \<Longrightarrow> data x (r # i # tl) = data t ((r + i * g) # tl)"
proof -
  define u where
    "u = t\<lparr>shape := (k * g) # 1 # rest, data := (\<lambda>ix. data t (take 1 ix @ drop 2 ix))\<rparr>"
  define xs where "xs = map (\<lambda>i. narrow u 0 (i * g) g) [0 ..< k]"
  define x where "x = \<lparr>dtype = dtype t, shape = g # k # rest, data = cat_data xs 1\<rparr>"
  have s1: "unsqueeze t 1 = Inr u"
    unfolding u_def by (rule unsqueeze_1 [OF sh])
  have s3: "split u (int g) 0 = Inr xs"
    unfolding xs_def by (rule split_even [where N = "k * g" and rest = "1 # rest"])
      (simp_all add: u_def g k)
  have "cat xs 1 = Inr \<lparr>dtype = dtype t,
      shape = (g # 1 # rest)[1 := length xs * ((g # 1 # rest) ! 1)], data = cat_data xs 1\<rparr>"
    by (rule cat_same_shapes)
      (use k in \<open>simp_all add: xs_def list_all_map_upt narrow_def u_def\<close>)
  then have s4: "cat xs 1 = Inr x" by (simp add: x_def xs_def)
  have el: "data x (r # i # tl) = data t ((r + i * g) # tl)" if "r < g" "i < k" for r i tl
  proof -
    have "data x (r # i # tl) = data (xs ! i) (r # 0 # tl)"
      using cat_data_same_width [of 1 1 xs "r # i # tl"] that(2)
      by (simp add: x_def xs_def list_all_map_upt narrow_def u_def)
    also have "\<dots> = data t ((r + i * g) # tl)"
      using that(2) by (simp add: xs_def narrow_def u_def)
    finally show ?thesis .
  qed
  show thesis
    by (rule that [OF s1 s3 s4 _ _ el]) (simp_all add: x_def)
qed

lemma group_empty_batch:
  assumes sh: "shape t = 0 # rest"
  obtains u xs x where
    "unsqueeze t 1 = Inr u" "split u 0 0 = Inr xs" "cat xs 1 = Inr x"
    "shape x = 0 # 1 # rest" "dtype x = dtype t"
proof -
  define u where
    "u = t\<lparr>shape := 0 # 1 # rest, data := (\<lambda>ix. data t (take 1 ix @ drop 2 ix))\<rparr>"
  define x where
    "x = \<lparr>dtype = dtype t, shape = 0 # 1 # rest, data = cat_data [narrow u 0 0 0] 1\<rparr>"
  have s1: "unsqueeze t 1 = Inr u"
    unfolding u_def by (rule unsqueeze_1 [OF sh])
  have s3: "split u 0 0 = Inr [narrow u 0 0 0]"
    by (rule split_empty [where rest = "1 # rest"]) (simp add: u_def)
  have s4: "cat [narrow u 0 0 0] 1 = Inr x"
    by (simp add: cat_def narrow_def u_def x_def)
  show thesis
    by (rule that [OF s1 s3 s4]) (simp_all add: x_def)
qed

lemma ungroup_batch:
  assumes sh: "shape x = k # g # rest" and k: "0 < k"
  obtains ys y z where
    "split x 1 0 = Inr ys" "cat ys 1 = Inr y" "squeeze y 0 = Inr z"
    "shape z = (k * g) # rest" "dtype z = dtype x"
    "\<And>j tl. j < k * g \<Longrightarrow> data z (j # tl) = data x ((j div g) # (j mod g) # tl)"
proof -
  define ys where "ys = map (\<lambda>i. narrow x 0 i 1) [0 ..< k]"
  define y where
    "y = \<lparr>dtype = dtype x, shape = 1 # (k * g) # rest, data = cat_data ys 1\<rparr>"
  define z where "z = y\<lparr>shape := (k * g) # rest, data := (\<lambda>ix. data y (0 # ix))\<rparr>"
  have s8: "split x 1 0 = Inr ys"
    unfolding ys_def by (rule split_ones [where rest = "g # rest"]) (simp_all add: sh k)
  have "cat ys 1 = Inr \<lparr>dtype = dtype x,
      shape = (1 # g # rest)[1 := length ys * ((1 # g # rest) ! 1)], data = cat_data ys 1\<rparr>"
    by (rule cat_same_shapes)
      (use k in \<open>simp_all add: ys_def list_all_map_upt narrow_def sh\<close>)
  then have s9: "cat ys 1 = Inr y" by (simp add: y_def ys_def)
  have s10: "squeeze y 0 = Inr z"
    by (simp add: squeeze_def y_def z_def)
  have el: "data z (j # tl) = data x ((j div g) # (j mod g) # tl)" if "j < k * g" for j tl
  proof -
    have g: "0 < g" using that by (cases g) auto
    have i: "j div g < k" using that g by (simp add: less_mult_imp_div_less)
    have "data z (j # tl) = cat_data ys 1 (0 # j # tl)"
      by (simp add: z_def y_def)
    also have "\<dots> = data (ys ! (j div g)) (0 # (j mod g) # tl)"
      using cat_data_same_width [of 1 g ys "0 # j # tl"] that
      by (simp add: ys_def list_all_map_upt narrow_def sh)
    also have "\<dots> = data x ((j div g) # (j mod g) # tl)"
      using i by (simp add: ys_def narrow_def)
    finally show ?thesis .
  qed
  show thesis
    by (rule that [OF s8 s9 s10 _ _ el]) (simp_all add: z_def y_def)
qed

lemma floordiv_exact:
  assumes "0 < k"
  shows "floordiv (int (k * g)) (int k) = Inr (int g)"
proof -
  have "int (k * g) div int k = int (k * g div k)" by (simp only: zdiv_int)
  then show ?thesis using assms by (simp add: floordiv_def)
qed

lemma permute_102:
  assumes "shape x = [a, b, c]"
  shows "permute x [1, 0, 2]
       = Inr (x\<lparr>shape := [b, a, c], data := (\<lambda>ix. data x [ix ! 1, ix ! 0, ix ! 2])\<rparr>)"
  using assms by (simp add: permute_def upt_3 numeral_2_eq_2)

lemma permute_10234:
  assumes "shape x = [a, b, c, h, w]"
  shows "permute x [1, 0, 2, 3, 4]
       = Inr (x\<lparr>shape := [b, a, c, h, w],
                data := (\<lambda>ix. data x [ix ! 1, ix ! 0, ix ! 2, ix ! 3, ix ! 4])\<rparr>)"
  using assms by (simp add: permute_def upt_5 numeral_2_eq_2 numeral_3_eq_3 eval_nat_numeral)

lemma forward1D_nonempty:
  assumes sh: "shape inputs = [k * g, C]"
    and n: "n self = int k"
    and k: "0 < k"
    and g: "0 < g"
    and ms: "shape (masks self) = [k, C]"
  shows "\<exists>out. forward1D self inputs = Inr out \<and> shape out = [k * g, C] \<and> dtype out = Float32
          \<and> (\<forall>j c. j < k * g \<and> c < C \<longrightarrow>
                data out [j, c] = data inputs [j, c] * data (masks self) [j div g, c])"
proof -
  obtain u xs x1 where a:
    "unsqueeze inputs 1 = Inr u" "split u (int g) 0 = Inr xs" "cat xs 1 = Inr x1"
    and x1: "shape x1 = [g, k, C]"
      "\<And>r i tl. r < g \<Longrightarrow> i < k \<Longrightarrow> data x1 (r # i # tl) = data inputs ((r + i * g) # tl)"
    using group_batch [OF sh k g] by metis
  define x2 where
    "x2 = x1\<lparr>shape := [k, g, C], data := (\<lambda>ix. data x1 [ix ! 1, ix ! 0, ix ! 2])\<rparr>"
  define m where
    "m = (masks self)\<lparr>shape := [k, 1, C],
            data := (\<lambda>ix. data (masks self) (take 1 ix @ drop 2 ix))\<rparr>"
  define x3 where
    "x3 = \<lparr>dtype = promote_types (dtype x2) (dtype m), shape = [k, g, C],
            data = (\<lambda>ix. data x2 (expand_index [k, g, C] ix)
                        * data m (expand_index [k, 1, C] ix))\<rparr>"
  have s2: "floordiv (int (k * g)) (n self) = Inr (int g)"
    unfolding n by (rule floordiv_exact [OF k])
  have s5: "permute x1 [1, 0, 2] = Inr x2"
    unfolding x2_def by (rule permute_102 [OF x1(1)])
  have s6: "unsqueeze (masks self) 1 = Inr m"
    unfolding m_def by (rule unsqueeze_1 [OF ms])
  have s7: "mul x2 m = Inr x3"
    by (simp add: mul_def broadcast_shapes_def x2_def m_def x3_def)
  obtain ys y z where c:
    "split x3 1 0 = Inr ys" "cat ys 1 = Inr y" "squeeze y 0 = Inr z"
    and z: "shape z = [k * g, C]"
      "\<And>j tl. j < k * g \<Longrightarrow> data z (j # tl) = data x3 ((j div g) # (j mod g) # tl)"
    using ungroup_batch [of x3 k g "[C]", OF _ k] by (metis x3_def tensor.select_convs(2))
  have res: "forward1D self inputs = Inr (float z)"
    by (simp only: forward1D_def sh list.case and_then_def a s2 s5 s6 s7 c sum.case)
  have el: "data (float z) [j, c] = data inputs [j, c] * data (masks self) [j div g, c]"
    if "j < k * g" "c < C" for j c
  proof -
    have i: "j div g < k" using that(1) g by (simp add: less_mult_imp_div_less)
    have r: "j mod g < g" using g by simp
    have e1: "expand_index [k, g, C] [j div g, j mod g, c] = [j div g, j mod g, c]"
      using i r that(2) by (auto simp: expand_index_def)
    have e2: "expand_index [k, Suc 0, C] [j div g, j mod g, c] = [j div g, 0, c]"
      using i that(2) by (auto simp: expand_index_def)
    have "data (float z) [j, c] = data x3 [j div g, j mod g, c]"
      using z(2) [OF that(1)] by (simp add: float_def)
    also have "\<dots> = data x1 [j mod g, j div g, c] * data (masks self) [j div g, c]"
      by (simp add: x3_def e1 e2 x2_def m_def numeral_2_eq_2)
    also have "data x1 [j mod g, j div g, c] = data inputs [j, c]"
      using x1(2) [OF r i] by simp
    finally show ?thesis .
  qed
  show ?thesis
    using res el z(1) by (intro exI [of _ "float z"]) (simp add: float_def)
qed

lemma forward1D_empty:
  assumes sh: "shape inputs = [0, C]"
    and n: "n self = int k"
    and k: "0 < k"
    and ms: "shape (masks self) = [k, C]"
  shows "\<exists>out. forward1D self inputs = Inr out \<and> shape out = [0, C] \<and> dtype out = Float32"
proof -
  obtain u xs x1 where a:
    "unsqueeze inputs 1 = Inr u" "split u 0 0 = Inr xs" "cat xs 1 = Inr x1"
    and x1: "shape x1 = [0, 1, C]"
    using group_empty_batch [OF sh] by metis
  define x2 where
    "x2 = x1\<lparr>shape := [1, 0, C], data := (\<lambda>ix. data x1 [ix ! 1, ix ! 0, ix ! 2])\<rparr>"
  define m where
    "m = (masks self)\<lparr>shape := [k, 1, C],
            data := (\<lambda>ix. data (masks self) (take 1 ix @ drop 2 ix))\<rparr>"
  define x3 where
    "x3 = \<lparr>dtype = promote_types (dtype x2) (dtype m), shape = [k, 0, C],
            data = (\<lambda>ix. data x2 (expand_index [1, 0, C] ix)
                        * data m (expand_index [k, 1, C] ix))\<rparr>"
  have s2: "floordiv (int 0) (n self) = Inr 0"
    using k by (simp add: floordiv_def n)
  have s5: "permute x1 [1, 0, 2] = Inr x2"
    unfolding x2_def by (rule permute_102 [OF x1(1)])
  have s6: "unsqueeze (masks self) 1 = Inr m"
    unfolding m_def by (rule unsqueeze_1 [OF ms])
  have s7: "mul x2 m = Inr x3"
    by (simp add: mul_def broadcast_shapes_def x2_def m_def x3_def)
  obtain ys y z where c:
    "split x3 1 0 = Inr ys" "cat ys 1 = Inr y" "squeeze y 0 = Inr z"
    and z: "shape z = [k * 0, C]"
    using ungroup_batch [of x3 k 0 "[C]", OF _ k] by (metis x3_def tensor.select_convs(2))
  have res: "forward1D self inputs = Inr (float z)"
    by (simp only: forward1D_def sh list.case and_then_def a s2 s5 s6 s7 c sum.case)
  show ?thesis
    using res z(1) by (intro exI [of _ "float z"]) (simp add: float_def)
qed

lemma unsqueeze_masks_2D:
  assumes ms: "shape t = [k, C]"
  obtains m1 m2 m3 where
    "unsqueeze t 1 = Inr m1" "unsqueeze m1 (- 1) = Inr m2" "unsqueeze m2 (- 1) = Inr m3"
    "shape m3 = [k, 1, C, 1, 1]" "dtype m3 = dtype t"
    "\<And>i c. data m3 [i, 0, c, 0, 0] = data t [i, c]"
proof -
  define m1 where
    "m1 = t\<lparr>shape := [k, 1, C], data := (\<lambda>ix. data t (take 1 ix @ drop 2 ix))\<rparr>"
  define m2 where
    "m2 = m1\<lparr>shape := shape m1 @ [1],
       data := (\<lambda>ix. data m1 (take (length (shape m1)) ix @ drop (Suc (length (shape m1))) ix))\<rparr>"
  define m3 where
    "m3 = m2\<lparr>shape := shape m2 @ [1],
       data := (\<lambda>ix. data m2 (take (length (shape m2)) ix @ drop (Suc (length (shape m2))) ix))\<rparr>"
  have s1: "unsqueeze t 1 = Inr m1"
    unfolding m1_def by (rule unsqueeze_1 [OF ms])
  have s2: "unsqueeze m1 (- 1) = Inr m2"
    unfolding m2_def by (rule unsqueeze_last)
  have s3: "unsqueeze m2 (- 1) = Inr m3"
    unfolding m3_def by (rule unsqueeze_last)
  show thesis
    by (rule that [OF s1 s2 s3]) (simp_all add: m3_def m2_def m1_def numeral_2_eq_2)
qed

lemma forward2D_nonempty:
  assumes sh: "shape inputs = [k * g, C, H, W]"
    and n: "n self = int k"
    and k: "0 < k"
    and g: "0 < g"
    and ms: "shape (masks self) = [k, C]"
  shows "\<exists>out. forward2D self inputs = Inr out \<and> shape out = [k * g, C, H, W]
          \<and> dtype out = Float32
          \<and> (\<forall>j c h w. j < k * g \<and> c < C \<and> h < H \<and> w < W \<longrightarrow>
                data out [j, c, h, w]
                  = data inputs [j, c, h, w] * data (masks self) [j div g, c])"
proof -
  obtain u xs x1 where a:
    "unsqueeze inputs 1 = Inr u" "split u (int g) 0 = Inr xs" "cat xs 1 = Inr x1"
    and x1: "shape x1 = [g, k, C, H, W]"
      "\<And>r i tl. r < g \<Longrightarrow> i < k \<Longrightarrow> data x1 (r # i # tl) = data inputs ((r + i * g) # tl)"
    using group_batch [OF sh k g] by metis
  define x2 where
    "x2 = x1\<lparr>shape := [k, g, C, H, W],
              data := (\<lambda>ix. data x1 [ix ! 1, ix ! 0, ix ! 2, ix ! 3, ix ! 4])\<rparr>"
  obtain m1 m2 m3 where b:
    "unsqueeze (masks self) 1 = Inr m1" "unsqueeze m1 (- 1) = Inr m2"
    "unsqueeze m2 (- 1) = Inr m3"
    and m3: "shape m3 = [k, 1, C, 1, 1]"
      "\<And>i c. data m3 [i, 0, c, 0, 0] = data (masks self) [i, c]"
    using unsqueeze_masks_2D [OF ms] by metis
  define x3 where
    "x3 = \<lparr>dtype = promote_types (dtype x2) (dtype m3), shape = [k, g, C, H, W],
            data = (\<lambda>ix. data x2 (expand_index [k, g, C, H, W] ix)
                        * data m3 (expand_index [k, 1, C, 1, 1] ix))\<rparr>"
  have s2: "floordiv (int (k * g)) (n self) = Inr (int g)"
    unfolding n by (rule floordiv_exact [OF k])
  have s5: "permute x1 [1, 0, 2, 3, 4] = Inr x2"
    unfolding x2_def by (rule permute_10234 [OF x1(1)])
  have s7: "mul x2 m3 = Inr x3"
    by (simp add: mul_def broadcast_shapes_def x2_def m3(1) x3_def)
  obtain ys y z where c:
    "split x3 1 0 = Inr ys" "cat ys 1 = Inr y" "squeeze y 0 = Inr z"
    and z: "shape z = [k * g, C, H, W]"
      "\<And>j tl. j < k * g \<Longrightarrow> data z (j # tl) = data x3 ((j div g) # (j mod g) # tl)"
    using ungroup_batch [of x3 k g "[C, H, W]", OF _ k]
    by (metis x3_def tensor.select_convs(2))
  have res: "forward2D self inputs = Inr (float z)"
    by (simp only: forward2D_def sh list.case and_then_def a s2 s5 b s7 c sum.case)
  have el: "data (float z) [j, c, h, w]
            = data inputs [j, c, h, w] * data (masks self) [j div g, c]"
    if "j < k * g" "c < C" "h < H" "w < W" for j c h w
  proof -
    have i: "j div g < k" using that(1) g by (simp add: less_mult_imp_div_less)
    have r: "j mod g < g" using g by simp
    have e1: "expand_index [k, g, C, H, W] [j div g, j mod g, c, h, w]
            = [j div g, j mod g, c, h, w]"
      using i r that by (auto simp: expand_index_def)
    have e2: "expand_index [k, Suc 0, C, Suc 0, Suc 0] [j div g, j mod g, c, h, w]
            = [j div g, 0, c, 0, 0]"
      using i that(2) by (auto simp: expand_index_def)
    have "data (float z) [j, c, h, w] = data x3 [j div g, j mod g, c, h, w]"
      using z(2) [OF that(1)] by (simp add: float_def)
    also have "\<dots> = data x1 [j mod g, j div g, c, h, w] * data (masks self) [j div g, c]"
      by (simp add: x3_def e1 e2 x2_def m3(2) eval_nat_numeral)
    also have "data x1 [j mod g, j div g, c, h, w] = data inputs [j, c, h, w]"
      using x1(2) [OF r i] by simp
    finally show ?thesis .
  qed
  show ?thesis
    using res el z(1) by (intro exI [of _ "float z"]) (simp add: float_def)
qed

lemma forward2D_empty:
  assumes sh: "shape inputs = [0, C, H, W]"
    and n: "n self = int k"
    and k: "0 < k"
    and ms: "shape (masks self) = [k, C]"
  shows "\<exists>out. forward2D self inputs = Inr out \<and> shape out = [0, C, H, W]
          \<and> dtype out = Float32"
proof -
  obtain u xs x1 where a:
    "unsqueeze inputs 1 = Inr u" "split u 0 0 = Inr xs" "cat xs 1 = Inr x1"
    and x1: "shape x1 = [0, 1, C, H, W]"
    using group_empty_batch [OF sh] by metis
  define x2 where
    "x2 = x1\<lparr>shape := [1, 0, C, H, W],
              data := (\<lambda>ix. data x1 [ix ! 1, ix ! 0, ix ! 2, ix ! 3, ix ! 4])\<rparr>"
  obtain m1 m2 m3 where b:
    "unsqueeze (masks self) 1 = Inr m1" "unsqueeze m1 (- 1) = Inr m2"
    "unsqueeze m2 (- 1) = Inr m3"
    and m3: "shape m3 = [k, 1, C, 1, 1]"
    using unsqueeze_masks_2D [OF ms] by metis
  define x3 where
    "x3 = \<lparr>dtype = promote_types (dtype x2) (dtype m3), shape = [k, 0, C, H, W],
            data = (\<lambda>ix. data x2 (expand_index [1, 0, C, H, W] ix)
                        * data m3 (expand_index [k, 1, C, 1, 1] ix))\<rparr>"
  have s2: "floordiv (int 0) (n self) = Inr 0"
    using k by (simp add: floordiv_def n)
  have s5: "permute x1 [1, 0, 2, 3, 4] = Inr x2"
    unfolding x2_def by (rule permute_10234 [OF x1(1)])
  have s7: "mul x2 m3 = Inr x3"
    by (simp add: mul_def broadcast_shapes_def x2_def m3(1) x3_def)
  obtain ys y z where c:
    "split x3 1 0 = Inr ys" "cat ys 1 = Inr y" "squeeze y 0 = Inr z"
    and z: "shape z = [k * 0, C, H, W]"
    using ungroup_batch [of x3 k 0 "[C, H, W]", OF _ k]
    by (metis x3_def tensor.select_convs(2))
  have res: "forward2D self inputs = Inr (float z)"
    by (simp only: forward2D_def sh list.case and_then_def a s2 s5 b s7 c sum.case)
  show ?thesis
    using res z(1) by (intro exI [of _ "float z"]) (simp add: float_def)
qed

lemma split_uneven:
  assumes sh: "shape t = N # w # rest" and g: "0 < g" and md: "N mod g \<noteq> 0" and gN: "g \<le> N"
  shows "\<exists>xs. split t (int g) 0 = Inr xs \<and> cat xs 1 = Inl RuntimeError"
proof -
  define q where "q = N div g"
  define f where "f = (\<lambda>i. narrow t 0 (i * g) (min g (N - i * g)))"
  have q: "0 < q" using g gN by (simp add: q_def div_greater_zero_iff)
  have cnt: "(N + g - 1) div g = Suc q"
  proof (rule div_nat_eqI)
    have "g * q + N mod g = N" unfolding q_def by simp
    then have lo: "g * q < N" using md by linarith
    have hi: "N < g * Suc q" unfolding q_def using g by (simp add: dividend_less_times_div)
    show "g * Suc q \<le> N + g - 1" using lo by simp
    show "N + g - 1 < g * Suc (Suc q)" using hi g by simp
  qed
  have sp: "split t (int g) 0 = Inr (map f [0 ..< Suc q])"
    using sh g cnt by (simp add: split_def Let_def f_def del: upt_Suc)
  have "[0 ..< Suc q] = 0 # [Suc 0 ..< Suc q]" by (simp add: upt_conv_Cons del: upt_Suc)
  then have xs: "map f [0 ..< Suc q] = f 0 # map f [Suc 0 ..< Suc q]" by simp
  have f0: "shape (f 0) = g # w # rest" using sh gN by (simp add: f_def narrow_def)
  have fq: "shape (f q) = (N mod g) # w # rest"
  proof -
    have "N - q * g = N mod g" unfolding q_def by (simp add: minus_div_mult_eq_mod)
    moreover have "N mod g < g" using g by simp
    ultimately show ?thesis using sh by (simp add: f_def narrow_def)
  qed
  have mem: "f q \<in> set (map f [Suc 0 ..< Suc q])" using q by auto
  have bad: "\<not> list_all (\<lambda>u. length (shape u) = length (shape (f 0))
                \<and> (shape u)[1 := 0] = (shape (f 0))[1 := 0]) (map f [Suc 0 ..< Suc q])"
  proof
    assume "list_all (\<lambda>u. length (shape u) = length (shape (f 0))
                \<and> (shape u)[1 := 0] = (shape (f 0))[1 := 0]) (map f [Suc 0 ..< Suc q])"
    then have "(shape (f q))[1 := 0] = (shape (f 0))[1 := 0]"
      using mem by (auto simp: list_all_iff)
    moreover have "N mod g < g" using g by simp
    ultimately show False by (simp add: f0 fq)
  qed
  have "cat (map f [0 ..< Suc q]) 1 = Inl RuntimeError"
    using bad by (simp add: cat_def xs f0 del: upt_Suc)
  with sp show ?thesis by blast
qed

lemma broadcast_rows_mismatch_1D:
  assumes "k' \<noteq> k" "k \<noteq> 1" "k' \<noteq> 1"
  shows "broadcast_shapes [k', g, C] [k, 1, Cm] = None"
  using assms by (simp add: broadcast_shapes_def)

lemma broadcast_rows_mismatch_2D:
  assumes "k' \<noteq> k" "k \<noteq> 1" "k' \<noteq> 1"
  shows "broadcast_shapes [k', g, C, H, W] [k, 1, Cm, 1, 1] = None"
  using assms by (simp add: broadcast_shapes_def)

lemma floordiv_nat:
  assumes "0 < k"
  shows "floordiv (int N) (int k) = Inr (int (N div k))"
  using assms by (simp add: floordiv_def zdiv_int)

text \<open>The three ways in which a batch that is not a multiple of the number of masks
  fails, or reaches the multiplication with a wrong number of groups.\<close>

lemma group_indivisible:
  assumes sh: "shape t = N # rest" and k: "0 < k" and nd: "\<not> k dvd N"
  obtains u where "unsqueeze t 1 = Inr u"
    "split u (int (N div k)) 0 = Inl RuntimeError
     \<or> (\<exists>xs. split u (int (N div k)) 0 = Inr xs \<and> cat xs 1 = Inl RuntimeError)
     \<or> (\<exists>xs x k'. split u (int (N div k)) 0 = Inr xs \<and> cat xs 1 = Inr x
            \<and> shape x = (N div k) # k' # rest \<and> k' \<noteq> k \<and> k' \<noteq> 1)"
proof -
  define g where "g = N div k"
  define u where
    "u = t\<lparr>shape := N # 1 # rest, data := (\<lambda>ix. data t (take 1 ix @ drop 2 ix))\<rparr>"
  have s1: "unsqueeze t 1 = Inr u"
    unfolding u_def by (rule unsqueeze_1 [OF sh])
  have shu: "shape u = N # 1 # rest" by (simp add: u_def)
  have N: "0 < N" using nd by (cases N) auto
  consider (zero) "g = 0" | (uneven) "0 < g" "N mod g \<noteq> 0" | (even) "0 < g" "N mod g = 0"
    by blast
  then have "split u (int g) 0 = Inl RuntimeError
     \<or> (\<exists>xs. split u (int g) 0 = Inr xs \<and> cat xs 1 = Inl RuntimeError)
     \<or> (\<exists>xs x k'. split u (int g) 0 = Inr xs \<and> cat xs 1 = Inr x
            \<and> shape x = g # k' # rest \<and> k' \<noteq> k \<and> k' \<noteq> 1)"
  proof cases
    case zero
    then have "split u (int g) 0 = Inl RuntimeError"
      using N by (simp add: split_def shu)
    then show ?thesis by blast
  next
    case uneven
    have "g \<le> N" unfolding g_def by simp
    from split_uneven [OF shu uneven this] show ?thesis by blast
  next
    case even
    define k' where "k' = N div g"
    have Nk: "N = k' * g" using even(2) unfolding k'_def by (metis mod_eq_0_iff_dvd dvd_div_mult_self)
    have k'0: "0 < k'" using N Nk by (cases k') auto
    have ne: "k' \<noteq> k" using nd Nk by auto
    have "k' \<noteq> 1"
    proof
      assume "k' = 1"
      then have "N div k = N" using Nk g_def by simp
      then have "k = 1" using N k by (metis div_less_dividend less_one nat_neq_iff)
      then show False using nd by simp
    qed
    moreover
    obtain u' xs x where "unsqueeze t 1 = Inr u'" "split u' (int g) 0 = Inr xs"
      "cat xs 1 = Inr x" "shape x = g # k' # rest"
      using group_batch [OF sh [unfolded Nk] k'0 even(1)] by metis
    ultimately show ?thesis using s1 ne by auto
  qed
  then show thesis using that [OF s1] by (simp add: g_def)
qed

lemma dvd_batch:
  assumes n: "0 < n self" and dv: "n self dvd int N"
  obtains k g where "n self = int k" "0 < k" "k = nat (n self)" "N = k * g" "g = N div k"
proof -
  define k where "k = nat (n self)"
  define g where "g = N div k"
  have k: "0 < k" and nk: "n self = int k" using n by (simp_all add: k_def)
  have "int k dvd int N" using dv nk by simp
  then have "k dvd N" by (simp only: int_dvd_int_iff)
  then have N: "N = k * g" by (simp add: g_def)
  show thesis by (rule that [OF nk k k_def N g_def])
qed

lemma and_then_Inr: "and_then (Inr x) f = f x"
  by (simp add: and_then_def)

lemma and_then_Inl: "and_then (Inl e) f = Inl e"
  by (simp add: and_then_def)

section \<open>Properties of the constructors\<close>

lemma zeros_ok:
  "0 \<le> a \<Longrightarrow> 0 \<le> b \<Longrightarrow>
     zeros [a, b] = Inr \<lparr>dtype = Float64, shape = [nat a, nat b], data = (\<lambda>ix. 0)\<rparr>"
  by (simp add: zeros_def full_def)

lemma zeros_negative:
  "a < 0 \<or> b < 0 \<Longrightarrow> zeros [a, b] = Inl ValueError"
  by (auto simp: zeros_def full_def)

lemma ones_ok:
  "0 \<le> a \<Longrightarrow> 0 \<le> b \<Longrightarrow>
     ones [a, b] = Inr \<lparr>dtype = Float64, shape = [nat a, nat b], data = (\<lambda>ix. 1)\<rparr>"
  by (simp add: ones_def full_def)

lemma logical_or_rows_ones:
  assumes "shape ms = rows # sh" "i < rows" "data ms = (\<lambda>ix. 1)"
  shows "logical_or_rows ms i = Inr ms"
proof -
  have "(\<lambda>ix. case ix of [] \<Rightarrow> data ms ix
          | r # rest \<Rightarrow>
              if r = i then (if data ms (i # rest) = 0 \<and> data ms (p # rest) = 0 then 0 else 1)
              else data ms ix) = data ms" for p
    by (rule ext) (simp add: assms(3) split: list.split)
  then show ?thesis using assms(1,2) by (simp add: logical_or_rows_def)
qed

lemma nested_loop_ones:
  assumes "shape ms = rows # sh" "list_all (\<lambda>i. i < rows) is" "data ms = (\<lambda>ix. 1)"
  shows "nested_loop is ms = Inr ms"
  using assms by (induction "is") (simp_all add: logical_or_rows_ones)

lemma range1_bound: "list_all (\<lambda>i. i < nat num) (range1 num)"
  by (simp add: range1_def list_all_iff)

lemma nested_loop_append:
  "nested_loop (xs @ ys) ms
     = (case nested_loop xs ms of Inl e \<Rightarrow> Inl e | Inr m \<Rightarrow> nested_loop ys m)"
  by (induction xs arbitrary: ms) (simp_all split: sum.split)

lemma logical_or_rows_step:
  assumes "shape ms = rows # sh" "i < rows" "0 < i"
  shows "logical_or_rows ms i
       = Inr (ms\<lparr>data := (\<lambda>ix. case ix of [] \<Rightarrow> data ms ix
                | r # rest \<Rightarrow>
                    if r = i then
                      (if data ms (i # rest) = 0 \<and> data ms ((i - 1) # rest) = 0 then 0 else 1)
                    else data ms ix)\<rparr>)"
  using assms by (simp add: logical_or_rows_def)

lemma nested_loop_rows:
  assumes "shape ms = rows # sh" "b \<le> rows"
  shows "\<exists>ms'. nested_loop [1 ..< b] ms = Inr ms' \<and> shape ms' = shape ms
          \<and> dtype ms' = dtype ms
          \<and> (\<forall>i rest. i = 0 \<or> b \<le> i \<longrightarrow> data ms' (i # rest) = data ms (i # rest))
          \<and> (\<forall>i rest. 0 < i \<and> i < b \<longrightarrow>
                data ms' (i # rest)
                  = (if data ms (i # rest) = 0 \<and> data ms' ((i - 1) # rest) = 0 then 0 else 1))"
  using assms(2)
proof (induction b)
  case 0
  then show ?case by simp
next
  case (Suc b)
  show ?case
  proof (cases "b = 0")
    case True
    then show ?thesis by simp
  next
    case False
    then have b: "0 < b" "b < rows" using Suc.prems by simp_all
    have "\<exists>ms'. nested_loop [1 ..< b] ms = Inr ms' \<and> shape ms' = shape ms
          \<and> dtype ms' = dtype ms
          \<and> (\<forall>i rest. i = 0 \<or> b \<le> i \<longrightarrow> data ms' (i # rest) = data ms (i # rest))
          \<and> (\<forall>i rest. 0 < i \<and> i < b \<longrightarrow>
                data ms' (i # rest)
                  = (if data ms (i # rest) = 0 \<and> data ms' ((i - 1) # rest) = 0 then 0 else 1))"
      by (rule Suc.IH) (use b(2) in simp)
    then obtain m1 where m1: "nested_loop [1 ..< b] ms = Inr m1" "shape m1 = shape ms"
      "dtype m1 = dtype ms"
      and keep0: "\<forall>i rest. i = 0 \<or> b \<le> i \<longrightarrow> data m1 (i # rest) = data ms (i # rest)"
      and acc0: "\<forall>i rest. 0 < i \<and> i < b \<longrightarrow>
        data m1 (i # rest)
          = (if data ms (i # rest) = 0 \<and> data m1 ((i - 1) # rest) = 0 then 0 else 1)"
      by blast
    have keep: "data m1 (i # rest) = data ms (i # rest)" if "i = 0 \<or> b \<le> i" for i rest
      using keep0 that by blast
    have acc: "data m1 (i # rest)
          = (if data ms (i # rest) = 0 \<and> data m1 ((i - 1) # rest) = 0 then 0 else 1)"
      if "0 < i" "i < b" for i rest
      using acc0 that by blast
    define m2 where
      "m2 = m1\<lparr>data := (\<lambda>ix. case ix of [] \<Rightarrow> data m1 ix
                | r # rest \<Rightarrow>
                    if r = b then
                      (if data m1 (b # rest) = 0 \<and> data m1 ((b - 1) # rest) = 0 then 0 else 1)
                    else data m1 ix)\<rparr>"
    have step: "logical_or_rows m1 b = Inr m2"
      unfolding m2_def
      by (rule logical_or_rows_step [where rows = rows and sh = sh])
        (simp_all add: m1(2) assms(1) b)
    have "[1 ..< Suc b] = [1 ..< b] @ [b]" using b(1) by simp
    then have run: "nested_loop [1 ..< Suc b] ms = Inr m2"
      by (simp only: nested_loop_append m1(1) sum.case nested_loop.simps step)
    have d2: "data m2 (r # rest)
        = (if r = b then
             (if data m1 (b # rest) = 0 \<and> data m1 ((b - 1) # rest) = 0 then 0 else 1)
           else data m1 (r # rest))" for r rest
      by (simp add: m2_def)
    have k2: "data m2 (i # rest) = data ms (i # rest)" if "i = 0 \<or> Suc b \<le> i" for i rest
      using that b(1) keep [of i rest] by (auto simp: d2)
    have a2: "data m2 (i # rest)
          = (if data ms (i # rest) = 0 \<and> data m2 ((i - 1) # rest) = 0 then 0 else 1)"
      if "0 < i" "i < Suc b" for i rest
    proof (cases "i = b")
      case True
      have "b - 1 \<noteq> b" using b(1) by simp
      then have "data m2 ((b - 1) # rest) = data m1 ((b - 1) # rest)"
        by (simp only: d2 if_False)
      moreover have "data m1 (b # rest) = data ms (b # rest)"
        by (rule keep) simp
      ultimately show ?thesis using True by (simp add: d2)
    next
      case False
      then have ib: "i < b" using that(2) by simp
      have "i - 1 \<noteq> b" using ib by simp
      then have "data m2 ((i - 1) # rest) = data m1 ((i - 1) # rest)"
        by (simp only: d2 if_False)
      then show ?thesis using False acc [OF that(1) ib, of rest] by (simp add: d2)
    qed
    have "shape m2 = shape ms" "dtype m2 = dtype ms"
      by (simp_all add: m2_def m1)
    then show ?thesis using run k2 a2 by blast
  qed
qed

section \<open>Properties of the float arithmetic\<close>

lemma two_powr_int: "(2::real) powr (of_int e) = 2 powi e"
  by (simp add: powr_real_of_int')

lemma binade_eqI:
  assumes "2 powi e \<le> \<bar>x\<bar>" "\<bar>x\<bar> < 2 powi (e + 1)"
  shows "binade x = e"
proof -
  have pos: "0 < \<bar>x\<bar>"
    using assms(1) by (rule less_le_trans [rotated]) simp
  have "2 powr (of_int e) \<le> \<bar>x\<bar> \<and> \<bar>x\<bar> < 2 powr (of_int e + 1)"
    using assms two_powr_int [of e] two_powr_int [of "e + 1"] by simp
  then show ?thesis
    unfolding binade_def using floor_log_eq_powr_iff [OF pos, of 2 e] by simp
qed

lemma binade_bounds:
  assumes "x \<noteq> 0"
  shows "2 powi (binade x) \<le> \<bar>x\<bar>" "\<bar>x\<bar> < 2 powi (binade x + 1)"
proof -
  have pos: "0 < \<bar>x\<bar>" using assms by simp
  have "2 powr (of_int (binade x)) \<le> \<bar>x\<bar> \<and> \<bar>x\<bar> < 2 powr (of_int (binade x) + 1)"
    using floor_log_eq_powr_iff [OF pos, of 2 "binade x"] by (simp add: binade_def)
  then show "2 powi (binade x) \<le> \<bar>x\<bar>" "\<bar>x\<bar> < 2 powi (binade x + 1)"
    using two_powr_int [of "binade x"] two_powr_int [of "binade x + 1"] by simp_all
qed

lemma binade_less:
  assumes "x \<noteq> 0" "\<bar>x\<bar> < 2 powi e"
  shows "binade x < e"
proof (rule ccontr)
  assume "\<not> binade x < e"
  then have "e \<le> binade x" by simp
  then have "(2::real) powi e \<le> 2 powi (binade x)"
    by (intro power_int_increasing) simp_all
  then show False using binade_bounds(1) [OF assms(1)] assms(2) by linarith
qed

lemma round_half_even_of_int: "round_half_even (of_int k) = k"
  by (simp add: round_half_even_def)

lemma rnd_exact:
  assumes x: "x = of_int m * 2 powi e" and m: "\<bar>m\<bar> < 2 ^ 53" and e: "- 1074 \<le> e"
  shows "rnd x = x"
proof (cases "x = 0")
  case True
  then show ?thesis by (simp add: rnd_def)
next
  case False
  define u where "u = max (binade x) (- 1022) - 52"
  have "\<bar>x\<bar> = of_int \<bar>m\<bar> * 2 powi e"
    unfolding x by (simp add: abs_mult)
  also have "\<dots> < 2 ^ 53 * 2 powi e"
  proof -
    have "(of_int \<bar>m\<bar> :: real) < of_int (2 ^ 53)" using m by (simp only: of_int_less_iff)
    then show ?thesis by simp
  qed
  also have "\<dots> = 2 powi (e + 53)"
    by (simp add: power_int_add)
  finally have "binade x < e + 53" by (rule binade_less [OF False])
  then have ue: "u \<le> e" using e by (simp add: u_def)
  have ulp: "ulp x = 2 powi u" by (simp add: ulp_def u_def)
  have "2 powi e = (2::real) powi (e - u) * 2 powi u"
    by (simp flip: power_int_add)
  also have "(2::real) powi (e - u) = 2 ^ nat (e - u)"
    using ue by (simp add: power_int_def)
  finally have pe: "(2::real) powi e = 2 ^ nat (e - u) * 2 powi u" .
  define K where "K = m * 2 ^ nat (e - u)"
  have xu: "x = of_int K * 2 powi u"
    using x pe by (simp add: K_def)
  have q: "x / 2 powi u = of_int K"
    using xu by simp
  have "rnd x = of_int (round_half_even (x / ulp x)) * ulp x"
    using False by (simp add: rnd_def)
  also have "\<dots> = of_int K * 2 powi u"
    by (simp only: ulp q round_half_even_of_int)
  also have "\<dots> = x" using xu by simp
  finally show ?thesis .
qed

lemma to_float64_exact:
  assumes "x = of_int m * 2 powi e" "\<bar>m\<bar> < 2 ^ 53" "- 1074 \<le> e" "\<bar>x\<bar> < 2 ^ 1024"
  shows "to_float64 x = Finite x"
proof -
  have r: "rnd x = x" by (rule rnd_exact [OF assms(1-3)])
  define M :: real where "M = 2 ^ 1024"
  have "\<bar>x\<bar> < M" using assms(4) by (simp only: M_def)
  then have "\<not> M \<le> x" "\<not> x \<le> - M" by linarith+
  then have a: "\<not> 2 ^ 1024 \<le> x" "\<not> x \<le> - (2 ^ 1024)"
    unfolding M_def by blast+
  show ?thesis by (simp only: to_float64_def r a if_False)
qed

lemma to_float64_of_int:
  assumes "\<bar>c\<bar> \<le> 2 ^ 53"
  shows "to_float64 (of_int c) = Finite (of_int c)"
proof (cases "\<bar>c\<bar> = 2 ^ 53")
  case True
  then have c: "c = 2 ^ 53 \<or> c = - (2 ^ 53)" by linarith
  have "to_float64 (of_int c) = Finite (of_int c)"
    if "c = s * 2 ^ 53" "\<bar>s\<bar> = 1" for s :: int
  proof (rule to_float64_exact [where m = s and e = 53])
    show "real_of_int c = of_int s * 2 powi 53" using that by simp
    show "\<bar>s\<bar> < 2 ^ 53" using that by simp
    show "\<bar>real_of_int c\<bar> < 2 ^ 1024"
    proof -
      have "\<bar>real_of_int c\<bar> = 2 ^ 53" using that by (simp add: abs_mult)
      then show ?thesis by simp
    qed
  qed simp
  from this [of 1] this [of "- 1"] c show ?thesis by auto
next
  case False
  then have lt: "\<bar>c\<bar> < 2 ^ 53" using assms by simp
  show ?thesis
  proof (rule to_float64_exact [where m = c and e = 0])
    have "real_of_int \<bar>c\<bar> < real_of_int (2 ^ 53)" using lt by (simp only: of_int_less_iff)
    also have "\<dots> < 2 ^ 1024" by simp
    finally show "\<bar>real_of_int c\<bar> < 2 ^ 1024" by simp
  qed (use lt in simp_all)
qed

lemma float_of_int_exact:
  assumes "\<bar>c\<bar> \<le> 2 ^ 53"
  shows "float_of_int c = Inr (Finite (of_int c))"
  by (simp add: float_of_int_def to_float64_of_int [OF assms])

text \<open>Rounding in a known binade.\<close>

lemma rnd_in_binade:
  assumes "2 powi e \<le> \<bar>x\<bar>" "\<bar>x\<bar> < 2 powi (e + 1)" "- 1022 \<le> e"
  shows "rnd x = of_int (round_half_even (x / 2 powi (e - 52))) * 2 powi (e - 52)"
proof -
  have "0 < (2::real) powi e" by (rule zero_less_power_int) simp
  then have "0 < \<bar>x\<bar>" using assms(1) by linarith
  then have "x \<noteq> 0" by simp
  moreover have "ulp x = 2 powi (e - 52)"
    using binade_eqI [OF assms(1,2)] assms(3) by (simp add: ulp_def)
  ultimately show ?thesis by (simp add: rnd_def)
qed

lemma to_float64_eval:
  assumes "2 powi e \<le> \<bar>x\<bar>" "\<bar>x\<bar> < 2 powi (e + 1)" "- 1022 \<le> e"
    and "round_half_even (x / 2 powi (e - 52)) = k"
    and "y = of_int k * 2 powi (e - 52)"
    and "\<bar>y\<bar> < 2 ^ 1024"
  shows "to_float64 x = Finite y"
proof -
  have r: "rnd x = y"
    using rnd_in_binade [OF assms(1-3)] assms(4,5) by simp
  define M :: real where "M = 2 ^ 1024"
  have "\<bar>y\<bar> < M" using assms(6) by (simp only: M_def)
  then have "\<not> M \<le> y" "\<not> y \<le> - M" by linarith+
  then have a: "\<not> 2 ^ 1024 \<le> y" "\<not> y \<le> - (2 ^ 1024)"
    unfolding M_def by blast+
  show ?thesis by (simp only: to_float64_def r a if_False)
qed

lemma third: "to_float64 (1 / 3) = Finite (6004799503160661 / 2 ^ 54)"
  by (rule to_float64_eval [where e = "- 2" and k = 6004799503160661])
    (simp_all add: round_half_even_def)

lemma two_thirds:
  "to_float64 (1 - 6004799503160661 / 2 ^ 54) = Finite (6004799503160662 / 2 ^ 53)"
  by (rule to_float64_eval [where e = "- 1" and k = 6004799503160662])
    (simp_all add: round_half_even_def)

lemma two_thirds_squared:
  "to_float64 ((6004799503160662 / 2 ^ 53) powi 2) = Finite (8006399337547550 / 2 ^ 54)"
  by (rule to_float64_eval [where e = "- 2" and k = 8006399337547550])
    (simp_all add: round_half_even_def power_divide)

lemma five_ninths:
  "to_float64 (1 - 8006399337547550 / 2 ^ 54) = Finite (5003999585967217 / 2 ^ 53)"
  by (rule to_float64_eval [where e = "- 1" and k = 5003999585967217])
    (simp_all add: round_half_even_def)

lemma fifteen:
  "to_float64 (27 * (5003999585967217 / 2 ^ 53)) = Finite (8444249301319679 / 2 ^ 49)"
  by (rule to_float64_eval [where e = 3 and k = 8444249301319679])
    (simp_all add: round_half_even_def)

lemma expected_size_9_2_3: "compute_expected_size 9 2 3 = Inr 14"
proof -
  have c: "float_of_int 9 = Inr (Finite 9)" "float_of_int 2 = Inr (Finite 2)"
    using float_of_int_exact [of 9] float_of_int_exact [of 2] by simp_all
  have t: "to_float64 (9 * 3) = Finite 27"
    using to_float64_of_int [of 27] by simp
  have p: "float_pow (Finite (6004799503160662 / 2 ^ 53)) 2
         = Inr (Finite (8006399337547550 / 2 ^ 54))"
    using two_thirds_squared
    by (simp add: float_pow_def c and_then_def platform_pow_def)
  show ?thesis
    using third two_thirds five_ninths fifteen p t
    by (simp add: compute_expected_size_def c and_then_def trunc_def)
qed

lemma round_half_even_bounds:
  "\<lfloor>q\<rfloor> \<le> round_half_even q" "round_half_even q \<le> \<lfloor>q\<rfloor> + 1"
  by (simp_all add: round_half_even_def)

lemma round_half_even_down:
  "q - of_int \<lfloor>q\<rfloor> < 1 / 2 \<Longrightarrow> round_half_even q = \<lfloor>q\<rfloor>"
  by (simp add: round_half_even_def)

text \<open>An int from one up to the largest that rounds to a finite float converts to a
  positive float.\<close>

lemma float_of_int_positive:
  assumes lo: "1 \<le> c" and hi: "c < 2 ^ 1024 - 2 ^ 970"
  shows "\<exists>y. float_of_int c = Inr (Finite y) \<and> 0 < y"
proof -
  define x :: real where "x = of_int c"
  define e where "e = binade x"
  define u where "u = e - 52"
  define q where "q = x / 2 powi u"
  define r where "r = round_half_even q"
  have x1: "1 \<le> x" using lo by (simp add: x_def)
  then have x0: "x \<noteq> 0" and ax: "\<bar>x\<bar> = x" by simp_all
  have xlt: "x < 2 ^ 1024 - 2 ^ 970"
  proof -
    have "real_of_int c < real_of_int (2 ^ 1024 - 2 ^ 970)"
      using hi by (simp only: of_int_less_iff)
    then show ?thesis by (simp add: x_def)
  qed
  have b: "2 powi e \<le> x" "x < 2 powi (e + 1)"
    using binade_bounds [OF x0] by (simp_all add: e_def ax)
  have e0: "0 \<le> e"
  proof (rule ccontr)
    assume "\<not> 0 \<le> e"
    then have "e + 1 \<le> 0" by simp
    then have "(2::real) powi (e + 1) \<le> 2 powi 0"
      by (intro power_int_increasing) simp_all
    then show False using b(2) x1 by simp
  qed
  have e1: "e \<le> 1023"
  proof -
    have "\<bar>x\<bar> < 2 powi 1024" using xlt ax by simp
    from binade_less [OF x0 this] show ?thesis by (simp add: e_def)
  qed
  have ulp: "ulp x = 2 powi u"
    using e0 by (simp add: ulp_def u_def e_def)
  have up: "0 < (2::real) powi u" by (rule zero_less_power_int) simp
  have pe: "(2::real) powi e = 2 ^ 52 * 2 powi u"
    unfolding u_def by (simp add: power_int_diff)
  have pe1: "(2::real) powi (e + 1) = 2 ^ 53 * 2 powi u"
    unfolding u_def by (simp add: power_int_diff power_int_add)
  have q_lo: "2 ^ 52 \<le> q"
    using b(1) up unfolding q_def pe by (simp add: pos_le_divide_eq)
  have q_hi: "q < 2 ^ 53"
    using b(2) up unfolding q_def pe1 by (simp add: pos_divide_less_eq)
  have f_lo: "2 ^ 52 \<le> \<lfloor>q\<rfloor>"
  proof -
    have "real_of_int (2 ^ 52) \<le> q" using q_lo by simp
    then show ?thesis by (simp only: le_floor_iff)
  qed
  have f_hi: "\<lfloor>q\<rfloor> < 2 ^ 53"
  proof -
    have "q < real_of_int (2 ^ 53)" using q_hi by simp
    then show ?thesis by (simp only: floor_less_iff)
  qed
  have r_lo: "2 ^ 52 \<le> r"
    using f_lo round_half_even_bounds(1) [of q] unfolding r_def by linarith
  have r_hi: "r \<le> 2 ^ 53"
    using f_hi round_half_even_bounds(2) [of q] unfolding r_def by linarith
  have rn: "rnd x = of_int r * 2 powi u"
    using x0 by (simp add: rnd_def ulp r_def q_def)
  have pos: "0 < rnd x"
  proof -
    have "0 < r" using r_lo by simp
    then have "0 < real_of_int r" by simp
    then show ?thesis unfolding rn using up by (rule mult_pos_pos)
  qed
  have fin: "rnd x < 2 ^ 1024"
  proof (cases "e = 1023")
    case False
    then have "e + 1 \<le> 1023" using e1 by simp
    then have le: "(2::real) powi (e + 1) \<le> 2 powi 1023"
      by (intro power_int_increasing) simp_all
    have "real_of_int r \<le> real_of_int (2 ^ 53)" using r_hi by (simp only: of_int_le_iff)
    then have "real_of_int r \<le> 2 ^ 53" by simp
    then have "rnd x \<le> 2 ^ 53 * 2 powi u"
      unfolding rn using up by (simp add: mult_right_mono)
    also have "\<dots> = 2 powi (e + 1)" by (simp only: pe1)
    also have "\<dots> \<le> 2 powi 1023" by (rule le)
    also have "\<dots> < (2::real) ^ 1024" by simp
    finally show ?thesis .
  next
    case True
    then have u: "u = 971" by (simp add: u_def)
    have "q < 2 ^ 53 - 1 / 2"
    proof -
      have "x / 2 ^ 971 < (2 ^ 1024 - 2 ^ 970) / 2 ^ 971"
        using xlt by (simp only: divide_strict_right_mono zero_less_power zero_less_numeral)
      also have "\<dots> = (2::real) ^ 53 - 1 / 2" by simp
      finally show ?thesis by (simp add: q_def u)
    qed
    have "r \<le> 2 ^ 53 - 1"
    proof (cases "\<lfloor>q\<rfloor> = 2 ^ 53 - 1")
      case True
      then have "real_of_int \<lfloor>q\<rfloor> = 2 ^ 53 - 1" by simp
      then have "q - of_int \<lfloor>q\<rfloor> < 1 / 2"
        using \<open>q < 2 ^ 53 - 1 / 2\<close> by simp
      then show ?thesis using True by (simp add: r_def round_half_even_down)
    next
      case False
      then have "\<lfloor>q\<rfloor> + 1 \<le> 2 ^ 53 - 1" using f_hi by linarith
      then show ?thesis using round_half_even_bounds(2) [of q] unfolding r_def by linarith
    qed
    then have "real_of_int r \<le> real_of_int (2 ^ 53 - 1)" by (simp only: of_int_le_iff)
    then have "real_of_int r \<le> 2 ^ 53 - 1" by simp
    then have "rnd x \<le> (2 ^ 53 - 1) * 2 ^ 971"
      unfolding rn u by (simp add: mult_right_mono)
    also have "\<dots> < (2::real) ^ 1024" by simp
    finally show ?thesis .
  qed
  define M :: real where "M = 2 ^ 1024"
  have "rnd x < M" "0 < rnd x" using fin pos by (simp_all only: M_def)
  then have "\<not> M \<le> rnd x" "\<not> rnd x \<le> - M" using M_def by linarith+
  then have a: "\<not> 2 ^ 1024 \<le> rnd x" "\<not> rnd x \<le> - (2 ^ 1024)"
    unfolding M_def by blast+
  have "to_float64 x = Finite (rnd x)"
    by (simp only: to_float64_def a if_False)
  then have "float_of_int c = Inr (Finite (rnd x))"
    by (simp add: float_of_int_def x_def)
  with pos show ?thesis by blast
qed

lemma to_float64_small [simp]:
  "to_float64 0 = Finite 0" "to_float64 1 = Finite 1" "to_float64 2 = Finite 2"
  "to_float64 (- 1) = Finite (- 1)"
  using to_float64_of_int [of 0] to_float64_of_int [of 1] to_float64_of_int [of 2]
    to_float64_of_int [of "- 1"]
  by simp_all

lemma to_float64_half_int:
  assumes "\<bar>c\<bar> \<le> 2 ^ 53"
  shows "to_float64 (of_int c / 2) = Finite (of_int c / 2)"
proof -
  have small: "\<bar>real_of_int c / 2\<bar> < 2 ^ 1024"
  proof -
    have "real_of_int \<bar>c\<bar> \<le> real_of_int (2 ^ 53)" using assms by (simp only: of_int_le_iff)
    then have "\<bar>real_of_int c\<bar> \<le> 2 ^ 53" by simp
    then have "\<bar>real_of_int c / 2\<bar> \<le> 2 ^ 53" by simp
    also have "\<dots> < (2::real) ^ 1024" by simp
    finally show ?thesis .
  qed
  show ?thesis
  proof (cases "\<bar>c\<bar> = 2 ^ 53")
    case True
    then have c: "c = 2 ^ 53 \<or> c = - (2 ^ 53)" by linarith
    have "to_float64 (of_int c / 2) = Finite (of_int c / 2)"
      if "c = s * 2 ^ 53" "\<bar>s\<bar> = 1" for s :: int
    proof (rule to_float64_exact [where m = s and e = 52])
      show "real_of_int c / 2 = of_int s * 2 powi 52" using that by simp
      show "\<bar>s\<bar> < 2 ^ 53" using that by simp
    qed (use small in simp_all)
    from this [of 1] this [of "- 1"] c show ?thesis by auto
  next
    case False
    then have lt: "\<bar>c\<bar> < 2 ^ 53" using assms by simp
    show ?thesis
      by (rule to_float64_exact [where m = c and e = "- 1"])
        (use lt small in \<open>simp_all add: power_int_minus field_simps\<close>)
  qed
qed

lemma compute_expected_size_scale_zero:
  assumes "0 \<le> chs" "chs < 2 ^ 1024 - 2 ^ 970"
  shows "compute_expected_size chs num 0 = Inl ZeroDivisionError"
proof -
  have "\<exists>y. float_of_int chs = Inr (Finite y)"
  proof (cases "chs = 0")
    case True
    then show ?thesis using float_of_int_exact [of 0] by simp
  next
    case False
    then have "1 \<le> chs" using assms(1) by simp
    from float_of_int_positive [OF this assms(2)] show ?thesis by blast
  qed
  then show ?thesis
    by (auto simp: compute_expected_size_def and_then_def)
qed

lemma float_pow_zero_base:
  assumes "1 \<le> num" "num < 2 ^ 1024 - 2 ^ 970"
  shows "float_pow (Finite 0) num = Inr (Finite 0)"
proof -
  obtain y where "float_of_int num = Inr (Finite y)" "0 < y"
    using float_of_int_positive [OF assms] by blast
  then show ?thesis by (simp add: float_pow_def and_then_def)
qed

lemma compute_expected_size_scale_one:
  assumes "1 \<le> num" "num < 2 ^ 1024 - 2 ^ 970" "\<bar>chs\<bar> \<le> 2 ^ 53"
  shows "compute_expected_size chs num 1 = Inr chs"
  by (simp add: compute_expected_size_def float_of_int_exact [OF assms(3)]
      float_pow_zero_base [OF assms(1,2)] and_then_def to_float64_of_int [OF assms(3)]
      trunc_def)

lemma float_pow_minus_one:
  assumes "0 \<le> num" "num \<le> 2 ^ 53"
  shows "float_pow (Finite (- 1)) num = Inr (Finite (if even num then 1 else - 1))"
proof -
  have "\<bar>num\<bar> \<le> 2 ^ 53" using assms by simp
  from float_of_int_exact [OF this] show ?thesis
    by (auto simp: float_pow_def and_then_def)
qed

lemma compute_expected_size_scale_half:
  assumes "0 \<le> num" "num \<le> 2 ^ 53" "\<bar>chs\<bar> \<le> 2 ^ 53"
  shows "compute_expected_size chs num (1 / 2) = Inr (if even num then 0 else chs)"
proof -
  show ?thesis
    by (simp add: compute_expected_size_def float_of_int_exact [OF assms(3)]
        float_pow_minus_one [OF assms(1,2)] and_then_def to_float64_half_int [OF assms(3)]
        to_float64_of_int [OF assms(3)] trunc_def)
qed

lemma spec_expected_size_scale_half:
  "spec_expected_size chs num (1 / 2) = (if even (nat num) then 0 else chs)"
  by (simp add: spec_expected_size_def)

lemma to_float64_dyadic:
  assumes "\<bar>m\<bar> < 2 ^ 53" "k \<le> 1074"
  shows "to_float64 (of_int m / 2 ^ k) = Finite (of_int m / 2 ^ k)"
proof (rule to_float64_exact [where m = m and e = "- int k"])
  show "real_of_int m / 2 ^ k = of_int m * 2 powi (- int k)"
    by (simp add: power_int_minus field_simps)
  show "- 1074 \<le> - int k" using assms(2) by simp
  have "\<bar>real_of_int m / 2 ^ k\<bar> = \<bar>real_of_int m\<bar> / 2 ^ k" by simp
  also have "\<dots> \<le> \<bar>real_of_int m\<bar>"
  proof -
    have "(1::real) \<le> 2 ^ k" by simp
    then have "\<bar>real_of_int m\<bar> * 1 \<le> \<bar>real_of_int m\<bar> * 2 ^ k"
      by (intro mult_left_mono) simp_all
    then show ?thesis by (simp add: divide_le_eq)
  qed
  also have "\<dots> = real_of_int \<bar>m\<bar>" by simp
  also have "\<dots> < real_of_int (2 ^ 53)" using assms(1) by (simp only: of_int_less_iff)
  also have "\<dots> < 2 ^ 1024" by simp
  finally show "\<bar>real_of_int m / 2 ^ k\<bar> < 2 ^ 1024" .
qed (rule assms(1))

lemma expected_size_16_4_2: "compute_expected_size 16 4 2 = Inr 30"
proof -
  have c: "float_of_int 16 = Inr (Finite 16)" "float_of_int 4 = Inr (Finite 4)"
    using float_of_int_exact [of 16] float_of_int_exact [of 4] by simp_all
  have d: "to_float64 (1 / 2) = Finite (1 / 2)" "to_float64 (1 / 16) = Finite (1 / 16)"
    "to_float64 (15 / 16) = Finite (15 / 16)" "to_float64 32 = Finite 32"
    "to_float64 30 = Finite 30"
    using to_float64_dyadic [of 1 1] to_float64_dyadic [of 1 4] to_float64_dyadic [of 15 4]
      to_float64_of_int [of 32] to_float64_of_int [of 30]
    by simp_all
  have p: "float_pow (Finite (1 / 2)) 4 = Inr (Finite (1 / 16))"
    using d(2) by (simp add: float_pow_def c and_then_def platform_pow_def power_divide)
  show ?thesis
    using d p by (simp add: compute_expected_size_def c and_then_def trunc_def)
qed

lemma expected_size_0_2_2: "compute_expected_size 0 2 2 = Inr 0"
proof -
  have c: "float_of_int 0 = Inr (Finite 0)" "float_of_int 2 = Inr (Finite 2)"
    using float_of_int_exact [of 0] float_of_int_exact [of 2] by simp_all
  have d: "to_float64 (1 / 2) = Finite (1 / 2)" "to_float64 (1 / 4) = Finite (1 / 4)"
    "to_float64 (3 / 4) = Finite (3 / 4)"
    using to_float64_dyadic [of 1 1] to_float64_dyadic [of 1 2] to_float64_dyadic [of 3 2]
    by simp_all
  have p: "float_pow (Finite (1 / 2)) 2 = Inr (Finite (1 / 4))"
    using d(2) by (simp add: float_pow_def c and_then_def platform_pow_def power_divide)
  show ?thesis
    using d p by (simp add: compute_expected_size_def c and_then_def trunc_def)
qed

text \<open>Beyond \<open>2 ^ 53\<close> an int need not be a float: \<open>2 ^ 53 + 1\<close> lies halfway between two
  floats and goes to the even one.\<close>

lemma float_of_int_2_53_plus_1:
  "float_of_int 9007199254740993 = Inr (Finite 9007199254740992)"
proof -
  have "to_float64 9007199254740993 = Finite 9007199254740992"
    by (rule to_float64_eval [where e = 53 and k = 4503599627370496])
      (simp_all add: round_half_even_def)
  then show ?thesis
    using float_of_int_def [of 9007199254740993] by simp
qed

lemma expected_size_2_53_plus_1:
  "compute_expected_size 9007199254740993 1 1 = Inr 9007199254740992"
proof -
  have c: "float_of_int 1 = Inr (Finite 1)"
    using float_of_int_exact [of 1] by simp
  have "to_float64 9007199254740992 = Finite 9007199254740992"
    using to_float64_of_int [of 9007199254740992] by simp
  then show ?thesis
    by (simp add: compute_expected_size_def float_of_int_2_53_plus_1 c float_pow_def
        and_then_def trunc_def)
qed

text \<open>An int of \<open>2 ^ 1024\<close> or more has no float.\<close>

lemma float_of_int_2_1024: "float_of_int (2 ^ 1024) = Inl OverflowError"
proof -
  have "rnd (2 ^ 1024) = 2 ^ 1024"
    using rnd_exact [of "2 ^ 1024" 1 1024] by simp
  then have "to_float64 (2 ^ 1024) = PosInf"
    by (simp only: to_float64_def order_refl if_True)
  then show ?thesis
    using float_of_int_def [of "2 ^ 1024"] by simp
qed

lemma expected_size_n_2_1024:
  "compute_expected_size 1 (2 ^ 1024) 1 = Inl OverflowError"
proof -
  have c: "float_of_int 1 = Inr (Finite 1)"
    using float_of_int_exact [of 1] by simp
  show ?thesis
    by (simp only: compute_expected_size_def c and_then_def sum.case float_truediv.simps
        float_sub.simps float_pow_def float_of_int_2_1024 to_float64_small
        div_by_1 diff_self one_neq_zero if_False float64.case)
qed

text \<open>A large scale overflows the product \<^verbatim>\<open>channels * scale\<close> to infinity while the
  bracket is zero; their product is a NaN, which \<^verbatim>\<open>int\<close> refuses.\<close>

lemma expected_size_16_4_huge: "compute_expected_size 16 4 (2 ^ 1023) = Inl ValueError"
proof -
  have c: "float_of_int 16 = Inr (Finite 16)" "float_of_int 4 = Inr (Finite 4)"
    using float_of_int_exact [of 16] float_of_int_exact [of 4] by simp_all
  have q: "to_float64 (1 / 2 ^ 1023) = Finite (1 / 2 ^ 1023)"
    using to_float64_dyadic [of 1 1023] by simp
  have d: "to_float64 (1 - 1 / 2 ^ 1023) = Finite 1"
    by (rule to_float64_eval [where e = "- 1" and k = "2 ^ 53"])
      (simp_all add: round_half_even_def)
  have "rnd (16 * 2 ^ 1023) = 16 * 2 ^ 1023"
    using rnd_exact [of "16 * 2 ^ 1023" 16 1023] by simp
  then have t: "to_float64 (16 * 2 ^ 1023) = PosInf"
    by (simp add: to_float64_def)
  have p: "float_pow (Finite 1) 4 = Inr (Finite 1)"
    by (simp add: float_pow_def c and_then_def)
  show ?thesis
    using q d t p by (simp add: compute_expected_size_def c and_then_def)
qed

section \<open>Applying the masks\<close>





text \<open>
  Claim C3.  For a valid pair of masks and input, \<^verbatim>\<open>forward\<close> of either rank returns
  a tensor of the shape of the input.  The element type of the result is that of the
  input only when the input is float32: the last operation of \<^verbatim>\<open>forward\<close> is
  \<^verbatim>\<open>.float()\<close>, so the result is float32 whatever the input's element type.  A float64
  input shows the difference.
\<close>

theorem forward_dtype_counterexample:
  "dtype (of_rows Float64 [[1, 1], [1, 1]]) = Float64
   \<and> map_sum id dtype
       (forward1D \<lparr>channels = 2, n = 2, scale = 2, masks = of_rows Float64 [[1, 0], [0, 1]]\<rparr>
          (of_rows Float64 [[1, 1], [1, 1]]))
     = Inr Float32"
proof -
  let ?L = "\<lparr>channels = 2, n = 2, scale = 2, masks = of_rows Float64 [[1, 0], [0, 1]]\<rparr>"
  have "\<exists>out. forward1D ?L (of_rows Float64 [[1, 1], [1, 1]]) = Inr out
          \<and> shape out = [2 * 1, 2] \<and> dtype out = Float32
          \<and> (\<forall>j c. j < 2 * 1 \<and> c < 2 \<longrightarrow>
                data out [j, c] = data (of_rows Float64 [[1, 1], [1, 1]]) [j, c]
                                  * data (masks ?L) [j div 1, c])"
    by (rule forward1D_nonempty) (simp_all add: of_rows_def)
  then show ?thesis by (auto simp: of_rows_def)
qed

text \<open>
  Claim C3 as the code has it: the result has the shape of the input and element type
  float32, for both ranks.
\<close>

theorem forward_shape_and_float32:
  assumes ms: "shape (masks self) = [nat (n self), C]"
    and n: "0 < n self"
    and dv: "n self dvd int N"
  shows "(shape x = [N, C] \<longrightarrow>
            (\<exists>out. forward1D self x = Inr out \<and> shape out = shape x \<and> dtype out = Float32))
       \<and> (shape y = [N, C, H, W] \<longrightarrow>
            (\<exists>out. forward2D self y = Inr out \<and> shape out = shape y \<and> dtype out = Float32))"
proof -
  obtain k g where nk: "n self = int k" and k: "0 < k" and kd: "k = nat (n self)"
    and N: "N = k * g"
    using dvd_batch [OF n dv] by blast
  have one: "\<exists>out. forward1D self x = Inr out \<and> shape out = shape x \<and> dtype out = Float32"
    if sh: "shape x = [N, C]"
  proof (cases "g = 0")
    case True
    then have "shape x = [0, C]" using sh N by simp
    from forward1D_empty [OF this nk k ms [folded kd]] show ?thesis
      using True N sh by auto
  next
    case False
    then have g: "0 < g" by simp
    have "shape x = [k * g, C]" using sh N by simp
    from forward1D_nonempty [OF this nk k g ms [folded kd]] show ?thesis
      using sh N by auto
  qed
  have two: "\<exists>out. forward2D self y = Inr out \<and> shape out = shape y \<and> dtype out = Float32"
    if sh: "shape y = [N, C, H, W]"
  proof (cases "g = 0")
    case True
    then have "shape y = [0, C, H, W]" using sh N by simp
    from forward2D_empty [OF this nk k ms [folded kd]] show ?thesis
      using True N sh by auto
  next
    case False
    then have g: "0 < g" by simp
    have "shape y = [k * g, C, H, W]" using sh N by simp
    from forward2D_nonempty [OF this nk k g ms [folded kd]] show ?thesis
      using sh N by auto
  qed
  show ?thesis using one two by blast
qed

theorem forward_shape_and_float32_witness:
  "map_sum id (\<lambda>out. (shape out, dtype out))
     (forward1D \<lparr>channels = 2, n = 2, scale = 2, masks = of_rows Float64 [[1, 0], [0, 1]]\<rparr>
        (of_rows Int64 [[1, 2], [3, 4], [5, 6], [7, 8]]))
     = Inr ([4, 2], Float32)
   \<and> map_sum id (\<lambda>out. (shape out, dtype out))
     (forward2D \<lparr>channels = 2, n = 2, scale = 2, masks = of_rows Float64 [[1, 0], [0, 1]]\<rparr>
        \<lparr>dtype = Float16, shape = [4, 2, 3, 3], data = (\<lambda>ix. 1)\<rparr>)
     = Inr ([4, 2, 3, 3], Float32)"
proof -
  let ?L = "\<lparr>channels = 2, n = 2, scale = 2, masks = of_rows Float64 [[1, 0], [0, 1]]\<rparr>"
  let ?x = "of_rows Int64 [[1, 2], [3, 4], [5, 6], [7, 8]]"
  let ?y = "\<lparr>dtype = Float16, shape = [4, 2, 3, 3], data = (\<lambda>ix. 1)\<rparr>"
  have sx: "shape ?x = [4, 2]" and sy: "shape ?y = [4, 2, 3, 3]"
    by (simp_all add: of_rows_def)
  have "(shape ?x = [4, 2] \<longrightarrow>
            (\<exists>out. forward1D ?L ?x = Inr out \<and> shape out = shape ?x \<and> dtype out = Float32))
       \<and> (shape ?y = [4, 2, 3, 3] \<longrightarrow>
            (\<exists>out. forward2D ?L ?y = Inr out \<and> shape out = shape ?y \<and> dtype out = Float32))"
    by (rule forward_shape_and_float32) (simp_all add: of_rows_def)
  then obtain o1 o2 where
    "forward1D ?L ?x = Inr o1" "shape o1 = [4, 2]" "dtype o1 = Float32"
    "forward2D ?L ?y = Inr o2" "shape o2 = [4, 2, 3, 3]" "dtype o2 = Float32"
    using sx sy by auto
  then show ?thesis by simp
qed

text \<open>
  Claim C5.  When the batch size is not a multiple of the number of masks, \<^verbatim>\<open>forward\<close>
  raises and returns nothing.  The layer has no check of its own: the error is the
  \<^verbatim>\<open>RuntimeError\<close> of the tensor operation that meets the mismatch first, which is
  \<^verbatim>\<open>torch.split\<close> for a batch smaller than the number of masks, \<^verbatim>\<open>torch.cat\<close> when
  the last chunk is short, and the broadcasting multiplication otherwise.
\<close>

theorem forward_indivisible_batch_raises:
  assumes sh: "shape inputs = N # rest"
    and ms: "shape (masks self) = [nat (n self), Cm]"
    and n: "0 < n self"
    and nd: "\<not> n self dvd int N"
  shows "forward1D self inputs = Inl RuntimeError \<and> forward2D self inputs = Inl RuntimeError"
proof -
  define k where "k = nat (n self)"
  define g where "g = N div k"
  have k: "0 < k" and nk: "n self = int k" using n by (simp_all add: k_def)
  have ndk: "\<not> k dvd N" using nd nk by (simp add: int_dvd_int_iff)
  have k1: "k \<noteq> 1" using ndk by auto
  have s2: "floordiv (int N) (n self) = Inr (int g)"
    unfolding nk g_def by (rule floordiv_nat [OF k])
  obtain m where m: "unsqueeze (masks self) 1 = Inr m" "shape m = [k, 1, Cm]"
    using unsqueeze_1 [OF ms] by (simp add: k_def)
  obtain m1 m2 m3 where mm:
    "unsqueeze (masks self) 1 = Inr m1" "unsqueeze m1 (- 1) = Inr m2"
    "unsqueeze m2 (- 1) = Inr m3" "shape m3 = [k, 1, Cm, 1, 1]"
    using unsqueeze_masks_2D [OF ms [folded k_def]] by metis
  obtain u where s1: "unsqueeze inputs 1 = Inr u"
    and cases: "split u (int g) 0 = Inl RuntimeError
     \<or> (\<exists>xs. split u (int g) 0 = Inr xs \<and> cat xs 1 = Inl RuntimeError)
     \<or> (\<exists>xs x k'. split u (int g) 0 = Inr xs \<and> cat xs 1 = Inr x
            \<and> shape x = g # k' # rest \<and> k' \<noteq> k \<and> k' \<noteq> 1)"
    using group_indivisible [OF sh k ndk] unfolding g_def by metis
  from cases consider
    (split) "split u (int g) 0 = Inl RuntimeError"
  | (cat) xs where "split u (int g) 0 = Inr xs" "cat xs 1 = Inl RuntimeError"
  | (mul) xs x k' where "split u (int g) 0 = Inr xs" "cat xs 1 = Inr x"
      "shape x = g # k' # rest" "k' \<noteq> k" "k' \<noteq> 1"
    by blast
  then show ?thesis
  proof cases
    case split
    show ?thesis
      by (simp only: forward1D_def forward2D_def sh list.case and_then_def s1 s2 split sum.case)
  next
    case cat
    show ?thesis
      by (simp only: forward1D_def forward2D_def sh list.case and_then_def s1 s2 cat sum.case)
  next
    case mul
    have p1: "and_then (permute x [1, 0, 2]) (\<lambda>x.
                and_then (unsqueeze (masks self) 1) (\<lambda>m. and_then (mul x m) F))
              = Inl RuntimeError" for F :: "tensor \<Rightarrow> error + tensor"
    proof (cases "\<exists>C. rest = [C]")
      case True
      then obtain C where "rest = [C]" by blast
      then have "shape x = [g, k', C]" using mul(3) by simp
      from permute_102 [OF this] show ?thesis
        using broadcast_rows_mismatch_1D [OF mul(4) k1 mul(5)]
        by (simp add: and_then_def mul_def m)
    next
      case False
      then have "length [1, 0, 2::nat] \<noteq> length (shape x)"
        using mul(3) by (cases rest) auto
      then show ?thesis by (simp add: permute_def and_then_def)
    qed
    have p2: "and_then (permute x [1, 0, 2, 3, 4]) (\<lambda>x.
                and_then (unsqueeze (masks self) 1) (\<lambda>m.
                and_then (unsqueeze m (- 1)) (\<lambda>m.
                and_then (unsqueeze m (- 1)) (\<lambda>m. and_then (mul x m) F))))
              = Inl RuntimeError" for F :: "tensor \<Rightarrow> error + tensor"
    proof (cases "\<exists>C H W. rest = [C, H, W]")
      case True
      then obtain C H W where "rest = [C, H, W]" by blast
      then have "shape x = [g, k', C, H, W]" using mul(3) by simp
      from permute_10234 [OF this] show ?thesis
        using broadcast_rows_mismatch_2D [OF mul(4) k1 mul(5)]
        by (simp add: and_then_def mul_def mm)
    next
      case False
      have "length rest \<noteq> 3"
      proof
        assume "length rest = 3"
        then obtain C H W where "rest = [C, H, W]"
          by (auto simp: length_Suc_conv numeral_3_eq_3)
        with False show False by blast
      qed
      then have "length [1, 0, 2, 3, 4::nat] \<noteq> length (shape x)"
        using mul(3) by simp
      then show ?thesis by (simp add: permute_def and_then_def)
    qed
    have "forward1D self inputs = Inl RuntimeError"
      by (simp only: forward1D_def sh list.case s1 s2 mul(1,2) and_then_Inr p1)
    moreover have "forward2D self inputs = Inl RuntimeError"
      by (simp only: forward2D_def sh list.case s1 s2 mul(1,2) and_then_Inr p2)
    ultimately show ?thesis by simp
  qed
qed

theorem forward_indivisible_batch_raises_witness:
  "forward1D \<lparr>channels = 2, n = 2, scale = 2, masks = of_rows Float64 [[1, 0], [0, 1]]\<rparr>
     (of_rows Float32 [[1, 1], [1, 1], [1, 1]]) = Inl RuntimeError
   \<and> forward2D \<lparr>channels = 2, n = 2, scale = 2, masks = of_rows Float64 [[1, 0], [0, 1]]\<rparr>
     (of_rows Float32 [[1, 1], [1, 1], [1, 1]]) = Inl RuntimeError"
  by (rule forward_indivisible_batch_raises [where N = 3 and rest = "[2]" and Cm = 2])
    (simp_all add: of_rows_def)

section \<open>Constructing the masks\<close>

text \<open>
  Claim C7.  With \<^verbatim>\<open>generate_masks\<close> true and \<^verbatim>\<open>scale == 1\<close>, \<^verbatim>\<open>Masksembles1D\<close> does not
  call the generator and stores the all-ones matrix of shape \<open>[n, channels]\<close>, whatever
  the generator would do.  \<^verbatim>\<open>Masksembles2D\<close> has no such case: at scale one it calls the
  generator, fails when the generator fails and stores what the generator returns.
\<close>

theorem Masksembles1D_scale_one_all_ones:
  assumes "0 \<le> num" "0 \<le> chs"
  shows "Masksembles1D_init gen chs num 1 True nested_masks
           = Inr \<lparr>channels = chs, n = num, scale = 1,
                  masks = \<lparr>dtype = Float64, shape = [nat num, nat chs], data = (\<lambda>ix. 1)\<rparr>\<rparr>
       \<and> (gen chs num 1 = Inl e \<longrightarrow>
            Masksembles2D_init gen chs num 1 True nested_masks = Inl e)
       \<and> (gen chs num 1 = Inr ms \<longrightarrow>
            Masksembles2D_init gen chs num 1 True False
              = Inr \<lparr>channels = chs, n = num, scale = 1, masks = double ms\<rparr>)"
proof -
  let ?ones = "\<lparr>dtype = Float64, shape = [nat num, nat chs], data = (\<lambda>ix. 1)\<rparr>"
  have "nested_loop (range1 num) ?ones = Inr ?ones"
    by (rule nested_loop_ones [where rows = "nat num" and sh = "[nat chs]"])
      (simp_all add: range1_bound)
  then have "Masksembles1D_init gen chs num 1 True nested_masks
           = Inr \<lparr>channels = chs, n = num, scale = 1, masks = ?ones\<rparr>"
    using assms by (simp add: Masksembles1D_init_def ones_ok and_then_def double_def)
  then show ?thesis
    by (simp add: Masksembles2D_init_def and_then_def)
qed

theorem Masksembles1D_scale_one_all_ones_witness:
  "Masksembles1D_init (\<lambda>c k s. Inl RuntimeError) 3 2 1 True True
     = Inr \<lparr>channels = 3, n = 2, scale = 1,
            masks = \<lparr>dtype = Float64, shape = [2, 3], data = (\<lambda>ix. 1)\<rparr>\<rparr>
   \<and> Masksembles2D_init (\<lambda>c k s. Inl RuntimeError) 3 2 1 True True = Inl RuntimeError
   \<and> to_rows (masks (projr (Masksembles2D_init
         (\<lambda>c k s. Inr (of_rows Float64 [[1, 0, 0], [0, 1, 1]])) 3 2 1 True False)))
       = [[1, 0, 0], [0, 1, 1]]"
proof -
  have u: "[0 ..< 3] = [0, 1, 2::nat]" "[0 ..< 2] = [0, 1::nat]"
    by code_simp+
  have a: "(0::int) \<le> 2" "(0::int) \<le> 3" by simp_all
  show ?thesis
    using Masksembles1D_scale_one_all_ones [OF a,
        where gen = "\<lambda>c k s. Inl RuntimeError" and e = RuntimeError and nested_masks = True]
      Masksembles1D_scale_one_all_ones [OF a,
        where gen = "\<lambda>c k s. Inr (of_rows Float64 [[1, 0, 0], [0, 1, 1]])"
          and ms = "of_rows Float64 [[1, 0, 0], [0, 1, 1]]"]
    by (simp add: to_rows_def of_rows_def double_def u)
qed

text \<open>
  Claim C8.  With \<^verbatim>\<open>generate_masks\<close> false every constructor stores the all-zeros matrix
  of its declared shape, \<open>[n, channels]\<close> for the fixed-size classes and
  \<open>[n, expected_size]\<close> for the dynamic-size ones, without calling the generator and
  whatever the scale and the \<^verbatim>\<open>nested_masks\<close> flag.  The shape has to be one numpy
  allocates: no negative dimension, and for the dynamic-size classes an expected size
  that can be computed.
\<close>

theorem generate_false_all_zeros:
  assumes "0 \<le> num"
  shows "(0 \<le> chs \<longrightarrow>
            Masksembles1D_init gen chs num scl False nested_masks
              = Inr \<lparr>channels = chs, n = num, scale = scl,
                     masks = \<lparr>dtype = Float64, shape = [nat num, nat chs], data = (\<lambda>ix. 0)\<rparr>\<rparr>
          \<and> Masksembles2D_init gen chs num scl False nested_masks
              = Inr \<lparr>channels = chs, n = num, scale = scl,
                     masks = \<lparr>dtype = Float64, shape = [nat num, nat chs], data = (\<lambda>ix. 0)\<rparr>\<rparr>)
       \<and> (compute_expected_size chs num scl = Inr esize \<and> 0 \<le> esize \<longrightarrow>
            Masksembles1DDynamicSize_init gen chs num scl False
              = Inr \<lparr>channels = chs, n = num, scale = scl,
                     masks = \<lparr>dtype = Float64, shape = [nat num, nat esize], data = (\<lambda>ix. 0)\<rparr>,
                     expected_size = esize\<rparr>
          \<and> Masksembles2DDynamicSize_init gen chs num scl False
              = Inr \<lparr>channels = chs, n = num, scale = scl,
                     masks = \<lparr>dtype = Float64, shape = [nat num, nat esize], data = (\<lambda>ix. 0)\<rparr>,
                     expected_size = esize\<rparr>)"
  using assms
  by (simp add: Masksembles1D_init_def Masksembles2D_init_def
      Masksembles1DDynamicSize_init_def Masksembles2DDynamicSize_init_def
      zeros_ok and_then_def double_def)

theorem generate_false_all_zeros_witness:
  "Masksembles1D_init (\<lambda>c k s. Inl RuntimeError) 3 2 (5 / 2) False True
     = Inr \<lparr>channels = 3, n = 2, scale = 5 / 2,
            masks = \<lparr>dtype = Float64, shape = [2, 3], data = (\<lambda>ix. 0)\<rparr>\<rparr>
   \<and> Masksembles2D_init (\<lambda>c k s. Inl RuntimeError) 3 2 (5 / 2) False True
     = Inr \<lparr>channels = 3, n = 2, scale = 5 / 2,
            masks = \<lparr>dtype = Float64, shape = [2, 3], data = (\<lambda>ix. 0)\<rparr>\<rparr>
   \<and> Masksembles1DDynamicSize_init (\<lambda>c k s. Inl RuntimeError) 16 4 2 False
     = Inr \<lparr>channels = 16, n = 4, scale = 2,
            masks = \<lparr>dtype = Float64, shape = [4, 30], data = (\<lambda>ix. 0)\<rparr>,
            expected_size = 30\<rparr>
   \<and> Masksembles2DDynamicSize_init (\<lambda>c k s. Inl RuntimeError) 16 4 2 False
     = Inr \<lparr>channels = 16, n = 4, scale = 2,
            masks = \<lparr>dtype = Float64, shape = [4, 30], data = (\<lambda>ix. 0)\<rparr>,
            expected_size = 30\<rparr>"
proof -
  have sz: "compute_expected_size 16 4 2 = Inr 30"
    by (rule expected_size_16_4_2)
  have a: "(0::int) \<le> 2" "(0::int) \<le> 4" by simp_all
  show ?thesis
    using generate_false_all_zeros [OF a(1), where chs = 3 and scl = "5 / 2"
        and gen = "\<lambda>c k s. Inl RuntimeError" and nested_masks = True]
      generate_false_all_zeros [OF a(2), where chs = 16 and scl = 2 and esize = 30
        and gen = "\<lambda>c k s. Inl RuntimeError"] sz
    by simp
qed




text \<open>
  Claim C4.  With \<^verbatim>\<open>generate_masks\<close> and \<^verbatim>\<open>nested_masks\<close> true, and a raw matrix of \<open>n\<close>
  rows (from the generator, or the all-ones matrix of \<^verbatim>\<open>Masksembles1D\<close> at scale one),
  the stored row \<open>0\<close> is the raw row \<open>0\<close>, and for \<open>i = 1, \<dots>, n - 1\<close> the stored row
  \<open>i\<close> is the logical or of the raw row \<open>i\<close> and the stored row \<open>i - 1\<close>.  Hence every
  channel active in row \<open>i - 1\<close> is active in row \<open>i\<close>.
\<close>

theorem nested_masks_cumulative:
  assumes raw: "(init = Masksembles2D_init \<and> gen chs num scl = Inr raw)
              \<or> (init = Masksembles1D_init
                  \<and> (if scl = 1 then ones [num, chs] else gen chs num scl) = Inr raw)"
    and sh: "shape raw = [nat num, C]"
  shows "\<exists>L. init gen chs num scl True True = Inr L \<and> shape (masks L) = [nat num, C]
          \<and> (\<forall>c. data (masks L) [0, c] = data raw [0, c])
          \<and> (\<forall>i c. 0 < i \<and> i < nat num \<longrightarrow>
                data (masks L) [i, c]
                  = (if data raw [i, c] = 0 \<and> data (masks L) [i - 1, c] = 0 then 0 else 1))
          \<and> (\<forall>i c. 0 < i \<and> i < nat num \<and> data (masks L) [i - 1, c] \<noteq> 0 \<longrightarrow>
                data (masks L) [i, c] \<noteq> 0)"
proof -
  obtain ms where run: "nested_loop (range1 num) raw = Inr ms"
    and shm: "shape ms = shape raw"
    and keep: "\<forall>i rest. i = 0 \<or> nat num \<le> i \<longrightarrow> data ms (i # rest) = data raw (i # rest)"
    and acc: "\<forall>i rest. 0 < i \<and> i < nat num \<longrightarrow>
        data ms (i # rest)
          = (if data raw (i # rest) = 0 \<and> data ms ((i - 1) # rest) = 0 then 0 else 1)"
    using nested_loop_rows [OF sh order_refl] unfolding range1_def by blast
  let ?L = "\<lparr>channels = chs, n = num, scale = scl, masks = double ms\<rparr>"
  have res: "init gen chs num scl True True = Inr ?L"
    using raw run
    by (auto simp: Masksembles2D_init_def Masksembles1D_init_def and_then_def)
  have d: "data (masks ?L) = data ms" "shape (masks ?L) = [nat num, C]"
    by (simp_all add: double_def shm sh)
  have a: "\<forall>c. data (masks ?L) [0, c] = data raw [0, c]"
    unfolding d using keep by blast
  have b: "\<forall>i c. 0 < i \<and> i < nat num \<longrightarrow>
        data (masks ?L) [i, c]
          = (if data raw [i, c] = 0 \<and> data (masks ?L) [i - 1, c] = 0 then 0 else 1)"
    unfolding d using acc by blast
  have c: "\<forall>i c. 0 < i \<and> i < nat num \<and> data (masks ?L) [i - 1, c] \<noteq> 0 \<longrightarrow>
        data (masks ?L) [i, c] \<noteq> 0"
    using b by simp
  show ?thesis
    using res d(2) a b c by (intro exI [of _ ?L] conjI)
qed

theorem nested_masks_cumulative_witness:
  "map_sum id (\<lambda>L. to_rows (masks L))
     (Masksembles2D_init (\<lambda>c k s. Inr (of_rows Float64 [[1, 0, 0], [0, 1, 0], [0, 0, 1]]))
        3 3 2 True True)
     = Inr [[1, 0, 0], [1, 1, 0], [1, 1, 1]]"
proof -
  let ?raw = "of_rows Float64 [[1, 0, 0], [0, 1, 0], [0, 0, 1]]"
  let ?gen = "\<lambda>c k s. Inr ?raw :: error + tensor"
  have "\<exists>L. Masksembles2D_init ?gen 3 3 2 True True = Inr L \<and> shape (masks L) = [nat 3, 3]
          \<and> (\<forall>c. data (masks L) [0, c] = data ?raw [0, c])
          \<and> (\<forall>i c. 0 < i \<and> i < nat 3 \<longrightarrow>
                data (masks L) [i, c]
                  = (if data ?raw [i, c] = 0 \<and> data (masks L) [i - 1, c] = 0 then 0 else 1))
          \<and> (\<forall>i c. 0 < i \<and> i < nat 3 \<and> data (masks L) [i - 1, c] \<noteq> 0 \<longrightarrow>
                data (masks L) [i, c] \<noteq> 0)"
    by (rule nested_masks_cumulative [where init = Masksembles2D_init and gen = ?gen
          and chs = 3 and num = 3 and scl = 2 and raw = ?raw and C = 3])
      (simp_all add: of_rows_def)
  then obtain L where o: "Masksembles2D_init ?gen 3 3 2 True True = Inr L"
    "shape (masks L) = [3, 3]"
    and r0: "\<And>c. data (masks L) [0, c] = data ?raw [0, c]"
    and ri: "\<And>i c. 0 < i \<Longrightarrow> i < 3 \<Longrightarrow>
        data (masks L) [i, c]
          = (if data ?raw [i, c] = 0 \<and> data (masks L) [i - 1, c] = 0 then 0 else 1)"
    by auto
  have u: "[0 ..< 3] = [0, 1, 2::nat]"
    by code_simp
  have row0: "map (\<lambda>c. data (masks L) [0, c]) [0, 1, 2] = [1, 0, 0]"
    by (simp add: r0 of_rows_def)
  have row1: "map (\<lambda>c. data (masks L) [1, c]) [0, 1, 2] = [1, 1, 0]"
    using ri [of 1] by (simp add: r0 of_rows_def)
  have row2: "map (\<lambda>c. data (masks L) [2, c]) [0, 1, 2] = [1, 1, 1]"
    using ri [of 2] ri [of 1] by (simp add: r0 of_rows_def)
  have "to_rows (masks L) = [[1, 0, 0], [1, 1, 0], [1, 1, 1]]"
    using row0 row1 row2 by (simp add: to_rows_def o(2) u)
  with o(1) show ?thesis by simp
qed







end
